theory Spec2Isabelle
  imports Main
begin

section \<open>Squares, players, errors and numbers\<close>

text \<open>
  Modelled from the spec: \<^verbatim>\<open>SquareType.js\<close>, \<^verbatim>\<open>Square.js\<close>, \<^verbatim>\<open>PlayerType.js\<close> and
  \<^verbatim>\<open>Player.js\<close> are type declarations that \<^verbatim>\<open>Board.js\<close> and the room use. A square holds one
  \<open>SquareType\<close>; a new square is empty, \<open>isEmpty\<close> tests for \<open>EMPTY\<close>, \<open>setType\<close> stores a
  type. A player pairs a member with a player type and a square type.
\<close>

datatype SquareType = EMPTY | RED | BLUE

datatype PlayerType = HUMAN | EASY_BOT | NORMAL_BOT | STUPID_BOT | RANDOM_BOT | CHEAT_BOT

type_synonym Square = SquareType

definition isEmpty :: "Square \<Rightarrow> bool" where
  "isEmpty s = (s = EMPTY)"

record Player =
  pmember :: "nat option"
  ptype :: PlayerType
  squareType :: SquareType

text \<open>
  Every \<^verbatim>\<open>throw new Error(...)\<close> of the source is a value. \<open>InvalidColumn\<close> stands for
  "The position is invalid.", "Column invalid." and "X pos of the square invalid.";
  \<open>InvalidRow\<close> for "Y pos of the square invalid."; \<open>ColumnFull\<close> for "The given position
  has no squares free." and "There is no free square in this column."; \<open>SetEmpty\<close> for
  "Cannot set the value of a square as empty."; \<open>SquareNotEmpty\<close> for "The square is not
  empty."; \<open>InvalidType\<close> for "Invalid type of square."; \<open>GameInProgress\<close> for "Cannot get
  the winner while the game is in progress."; \<open>TypeError\<close> is what JavaScript raises when a
  property of \<^verbatim>\<open>undefined\<close> is read (an array read outside the array).
\<close>

datatype error =
  InvalidColumn | InvalidRow | ColumnFull | SetEmpty | SquareNotEmpty | InvalidType
  | GameInProgress | TypeError

text \<open>
  The numbers of the search: integers, and the two infinities that \<^verbatim>\<open>_minimax\<close> starts its
  window and its running optimum with.
\<close>

datatype num = NegInf | Num int | PosInf

instantiation num :: linorder
begin

fun less_eq_num :: "num \<Rightarrow> num \<Rightarrow> bool" where
  "less_eq_num NegInf _ = True"
| "less_eq_num (Num a) NegInf = False"
| "less_eq_num (Num a) (Num b) = (a \<le> b)"
| "less_eq_num (Num a) PosInf = True"
| "less_eq_num PosInf PosInf = True"
| "less_eq_num PosInf _ = False"

definition less_num :: "num \<Rightarrow> num \<Rightarrow> bool" where
  "less_num x y = (x \<le> y \<and> \<not> y \<le> x)"

instance
proof
  fix x y z :: num
  show "(x < y) = (x \<le> y \<and> \<not> y \<le> x)" by (simp add: less_num_def)
  show "x \<le> x" by (cases x) simp_all
  show "x \<le> y \<Longrightarrow> y \<le> z \<Longrightarrow> x \<le> z" by (cases x; cases y; cases z) simp_all
  show "x \<le> y \<Longrightarrow> y \<le> x \<Longrightarrow> x = y" by (cases x; cases y) simp_all
  show "x \<le> y \<or> y \<le> x" by (cases x; cases y) auto
qed

end

section \<open>Board\<close>

text \<open>
  \<^verbatim>\<open>Board._squares\<close> is an array of columns, each an array of squares: the square of column
  \<open>x\<close> and row \<open>y\<close> is \<^verbatim>\<open>_squares[x][y]\<close>. The constructor fixes \<^verbatim>\<open>_rows = 6\<close> and
  \<^verbatim>\<open>_cols = 7\<close>. Indices are JavaScript numbers, here integers.
\<close>

type_synonym Board = "Square list list"

definition rows :: int where
  [simp]: "rows = 6"

definition cols :: int where
  [simp]: "cols = 7"

definition sq :: "Board \<Rightarrow> int \<Rightarrow> int \<Rightarrow> Square" where
  "sq b x y = b ! nat x ! nat y"

definition Board_new :: Board where
  "Board_new = map (\<lambda>x. map (\<lambda>y. EMPTY) [0..rows - 1]) [0..cols - 1]"

definition wf_board :: "Board \<Rightarrow> bool" where
  "wf_board b = (int (length b) = cols \<and> list_all (\<lambda>col. int (length col) = rows) b)"

definition setSquare :: "Board \<Rightarrow> int \<Rightarrow> int \<Rightarrow> SquareType \<Rightarrow> error + Board" where
  "setSquare b x y t =
     (if x < 0 \<or> x \<ge> cols then Inl InvalidColumn
      else if y < 0 \<or> y \<ge> rows then Inl InvalidRow
      else if t = EMPTY then Inl SetEmpty
      else if \<not> (nat x < length b \<and> nat y < length (b ! nat x)) then Inl TypeError
      else if \<not> isEmpty (sq b x y) then Inl SquareNotEmpty
      else if t \<noteq> RED \<and> t \<noteq> BLUE then Inl InvalidType
      else Inr (b[nat x := (b ! nat x)[nat y := t]]))"

definition getSquare :: "Board \<Rightarrow> int \<Rightarrow> int \<Rightarrow> error + Square" where
  "getSquare b x y =
     (if x < 0 \<or> x \<ge> cols then Inl InvalidColumn
      else if y < 0 \<or> y \<ge> rows then Inl InvalidRow
      else Inr (sq b x y))"

definition hasFreeSquare :: "Board \<Rightarrow> int \<Rightarrow> error + bool" where
  "hasFreeSquare b col =
     (if col < 0 \<or> col \<ge> cols then Inl InvalidColumn
      else Inr (list_ex (\<lambda>y. isEmpty (sq b col y)) [0..rows - 1]))"

definition getFree :: "Board \<Rightarrow> int list" where
  "getFree b = filter (\<lambda>x. hasFreeSquare b x = Inr True) [0..cols - 1]"

text \<open>
  The loop of \<^verbatim>\<open>getFirstFreeSquarePos\<close> runs from row \<open>rows - 1\<close> down to row 0 and returns
  the first empty one. It cannot end without returning once \<open>hasFreeSquare\<close> has said yes;
  the model gives that branch the error of the check before it.
\<close>

definition getFirstFreeSquarePos :: "Board \<Rightarrow> int \<Rightarrow> error + int" where
  "getFirstFreeSquarePos b col =
     (if col < 0 \<or> col \<ge> cols then Inl InvalidColumn
      else if hasFreeSquare b col \<noteq> Inr True then Inl ColumnFull
      else (case find (\<lambda>y. isEmpty (sq b col y)) (rev [0..rows - 1]) of
              Some y \<Rightarrow> Inr y
            | None \<Rightarrow> Inl ColumnFull))"

text \<open>
  \<^verbatim>\<open>copy\<close> builds a new board and gives each square the type of the square it copies. Its
  reads go through \<^verbatim>\<open>getSquare\<close> with indices the loops keep in range.
\<close>

definition copy :: "Board \<Rightarrow> Board" where
  "copy b =
     map (\<lambda>x. map (\<lambda>y. if \<not> isEmpty (sq b x y) then sq b x y else EMPTY) [0..rows - 1])
       [0..cols - 1]"

text \<open>
  The statement \<^verbatim>\<open>b.setSquare(pos, b.getFirstFreeSquarePos(pos), type)\<close>, which \<^verbatim>\<open>play\<close> and
  both branches of \<^verbatim>\<open>_minimax\<close> run.
\<close>

definition dropSquare :: "Board \<Rightarrow> int \<Rightarrow> SquareType \<Rightarrow> error + Board" where
  "dropSquare b pos t =
     (case getFirstFreeSquarePos b pos of
        Inl e \<Rightarrow> Inl e
      | Inr y \<Rightarrow> setSquare b pos y t)"

section \<open>Winner scan and heuristic score\<close>

definition CENTER_POINTS :: int where [simp]: "CENTER_POINTS = 4"
definition LINES2_POINTS :: int where [simp]: "LINES2_POINTS = 2"
definition LINES3_POINTS :: int where [simp]: "LINES3_POINTS = 5"
definition WIN_POINTS :: int where [simp]: "WIN_POINTS = 10000"
definition OPP_LINES2_POINTS :: int where [simp]: "OPP_LINES2_POINTS = - 2"
definition OPP_LINES3_POINTS :: int where [simp]: "OPP_LINES3_POINTS = - 5"
definition OPP_WIN_POINTS :: int where [simp]: "OPP_WIN_POINTS = - 1000"

text \<open>
  A \<^verbatim>\<open>for\<close> loop whose body may return: the result of the first iteration that returns.
\<close>

fun firstReturn :: "('a \<Rightarrow> 'b option) \<Rightarrow> 'a list \<Rightarrow> 'b option" where
  "firstReturn f [] = None"
| "firstReturn f (x # xs) = (case f x of Some r \<Rightarrow> Some r | None \<Rightarrow> firstReturn f xs)"

text \<open>
  The inner \<^verbatim>\<open>while\<close> loops of \<^verbatim>\<open>_getSquareTypeWinner\<close>; \<open>cell cpt\<close> is the square the loop
  reads at counter \<open>cpt\<close>. Three of them count down from \<open>y\<close>, the horizontal one counts up
  from \<open>x\<close>.
\<close>

function whileDown :: "(int \<Rightarrow> Square) \<Rightarrow> SquareType \<Rightarrow> int \<Rightarrow> int \<Rightarrow> int" where
  "whileDown cell currentType y cpt =
     (if cpt > y - 4 \<and> \<not> isEmpty (cell cpt) \<and> cell cpt = currentType
      then whileDown cell currentType y (cpt - 1) else cpt)"
  by pat_completeness auto
termination
  by (relation "measure (\<lambda>(cell, t, y, cpt). nat (cpt - (y - 4)))") auto

declare whileDown.simps [simp del]

function whileUp :: "(int \<Rightarrow> Square) \<Rightarrow> SquareType \<Rightarrow> int \<Rightarrow> int \<Rightarrow> int" where
  "whileUp cell currentType x cpt =
     (if cpt < x + 4 \<and> \<not> isEmpty (cell cpt) \<and> cell cpt = currentType
      then whileUp cell currentType x (cpt + 1) else cpt)"
  by pat_completeness auto
termination
  by (relation "measure (\<lambda>(cell, t, x, cpt). nat (x + 4 - cpt))") auto

declare whileUp.simps [simp del]

definition winVertical :: "Board \<Rightarrow> SquareType option" where
  "winVertical b =
     firstReturn (\<lambda>x. firstReturn (\<lambda>y.
         let currentType = sq b x y
         in if whileDown (\<lambda>cpt. sq b x cpt) currentType y y = y - 4
            then Some currentType else None)
       (rev [3..rows - 1])) [0..cols - 1]"

definition winHorizontal :: "Board \<Rightarrow> SquareType option" where
  "winHorizontal b =
     firstReturn (\<lambda>y. firstReturn (\<lambda>x.
         let currentType = sq b x y
         in if whileUp (\<lambda>cpt. sq b cpt y) currentType x x = x + 4
            then Some currentType else None)
       [0..cols - 4]) (rev [0..rows - 1])"

definition winDiagonal :: "Board \<Rightarrow> SquareType option" where
  "winDiagonal b =
     firstReturn (\<lambda>x. firstReturn (\<lambda>y.
         let currentType = sq b x y
         in if whileDown (\<lambda>cpt. sq b (x + (y - cpt)) cpt) currentType y y = y - 4
            then Some currentType else None)
       (rev [3..rows - 1])) [0..cols - 4]"

definition winAntiDiagonal :: "Board \<Rightarrow> SquareType option" where
  "winAntiDiagonal b =
     firstReturn (\<lambda>x. firstReturn (\<lambda>y.
         let currentType = sq b x y
         in if whileDown (\<lambda>cpt. sq b (x - (y - cpt)) cpt) currentType y y = y - 4
            then Some currentType else None)
       (rev [3..rows - 1])) (rev [3..cols - 1])"

text \<open>\<^verbatim>\<open>_getSquareTypeWinner\<close>; \<^verbatim>\<open>null\<close> is \<open>None\<close>.\<close>

definition getSquareTypeWinner :: "Board \<Rightarrow> SquareType option" where
  "getSquareTypeWinner b =
     (case winVertical b of Some t \<Rightarrow> Some t | None \<Rightarrow>
      case winHorizontal b of Some t \<Rightarrow> Some t | None \<Rightarrow>
      case winDiagonal b of Some t \<Rightarrow> Some t | None \<Rightarrow>
      winAntiDiagonal b)"

definition isOver :: "Board \<Rightarrow> bool" where
  "isOver b = (length (getFree b) = 0 \<or> getSquareTypeWinner b \<noteq> None)"

definition calcScore :: "int \<Rightarrow> int \<Rightarrow> int" where
  "calcScore nb_empty nb_square =
     (if nb_empty = 0 then
        (if nb_square = 0 then OPP_WIN_POINTS
         else if nb_square = 4 then WIN_POINTS else 0)
      else if nb_empty = 1 then
        (if nb_square = 0 then OPP_LINES3_POINTS
         else if nb_square = 3 then LINES3_POINTS else 0)
      else if nb_empty = 2 then
        (if nb_square = 0 then OPP_LINES2_POINTS
         else if nb_square = 2 then LINES2_POINTS else 0)
      else 0)"

text \<open>
  The counting \<^verbatim>\<open>while\<close> loops of \<^verbatim>\<open>_getScore\<close>, returning \<open>(nb_empty, nb_player_square)\<close>.
\<close>

function countDown ::
  "(int \<Rightarrow> Square) \<Rightarrow> SquareType \<Rightarrow> int \<Rightarrow> int \<Rightarrow> int \<Rightarrow> int \<Rightarrow> int \<times> int" where
  "countDown cell t y cpt nb_empty nb_player_square =
     (if cpt > y - 4 then
        (if isEmpty (cell cpt) then countDown cell t y (cpt - 1) (nb_empty + 1) nb_player_square
         else if cell cpt = t then countDown cell t y (cpt - 1) nb_empty (nb_player_square + 1)
         else countDown cell t y (cpt - 1) nb_empty nb_player_square)
      else (nb_empty, nb_player_square))"
  by pat_completeness auto
termination
  by (relation "measure (\<lambda>(cell, t, y, cpt, e, p). nat (cpt - (y - 4)))") auto

declare countDown.simps [simp del]

function countUp ::
  "(int \<Rightarrow> Square) \<Rightarrow> SquareType \<Rightarrow> int \<Rightarrow> int \<Rightarrow> int \<Rightarrow> int \<Rightarrow> int \<times> int" where
  "countUp cell t x cpt nb_empty nb_player_square =
     (if cpt < x + 4 then
        (if isEmpty (cell cpt) then countUp cell t x (cpt + 1) (nb_empty + 1) nb_player_square
         else if cell cpt = t then countUp cell t x (cpt + 1) nb_empty (nb_player_square + 1)
         else countUp cell t x (cpt + 1) nb_empty nb_player_square)
      else (nb_empty, nb_player_square))"
  by pat_completeness auto
termination
  by (relation "measure (\<lambda>(cell, t, x, cpt, e, p). nat (x + 4 - cpt))") auto

declare countUp.simps [simp del]

definition windowScore :: "int \<times> int \<Rightarrow> int" where
  "windowScore c = calcScore (fst c) (snd c)"

definition getScore :: "Board \<Rightarrow> Player \<Rightarrow> int" where
  "getScore b player =
     (let center_points =
            fold (\<lambda>y acc. if sq b (cols div 2) y = squareType player
                           then acc + CENTER_POINTS else acc)
              (rev [0..rows - 1]) 0;
          vertical_points =
            fold (\<lambda>x. fold (\<lambda>y acc.
                acc + windowScore (countDown (\<lambda>cpt. sq b x cpt) (squareType player) y y 0 0))
              (rev [3..rows - 1])) [0..cols - 1] 0;
          horizontal_points =
            fold (\<lambda>y. fold (\<lambda>x acc.
                acc + windowScore (countUp (\<lambda>cpt. sq b cpt y) (squareType player) x x 0 0))
              [0..cols - 4]) (rev [0..rows - 1]) 0;
          diagonal_points =
            fold (\<lambda>x. fold (\<lambda>y acc.
                acc + windowScore
                  (countDown (\<lambda>cpt. sq b (x + (y - cpt)) cpt) (squareType player) y y 0 0))
              (rev [3..rows - 1])) [0..cols - 4] 0;
          anti_diagonal_points =
            fold (\<lambda>x. fold (\<lambda>y acc.
                acc + windowScore
                  (countDown (\<lambda>cpt. sq b (x - (y - cpt)) cpt) (squareType player) y y 0 0))
              (rev [3..rows - 1])) (rev [3..cols - 1]) 0
      in center_points + vertical_points + horizontal_points + diagonal_points
         + anti_diagonal_points)"

section \<open>Room\<close>

record Room =
  board :: Board
  players :: "Player list"
  currentPlayerIndex :: nat

definition currentPlayer :: "Room \<Rightarrow> Player" where
  "currentPlayer rm = players rm ! currentPlayerIndex rm"

definition opponentPlayer :: "Room \<Rightarrow> Player" where
  "opponentPlayer rm = players rm ! ((currentPlayerIndex rm + 1) mod 2)"

definition swapPlayer :: "Room \<Rightarrow> Room" where
  "swapPlayer rm =
     rm\<lparr>currentPlayerIndex := (currentPlayerIndex rm + 1) mod length (players rm)\<rparr>"

text \<open>
  The constructor. \<open>rnd\<close> is the draw behind \<^verbatim>\<open>Math.floor(Math.random() * 2)\<close>, which is 0
  or 1: \<open>rnd mod 2\<close>. A player has no square type before the constructor assigns one;
  the model writes \<open>EMPTY\<close> there until the two assignments that follow.
\<close>

definition Player_new :: "nat option \<Rightarrow> PlayerType \<Rightarrow> Player" where
  "Player_new m t = \<lparr>pmember = m, ptype = t, squareType = EMPTY\<rparr>"

definition Room_new :: "nat \<Rightarrow> nat option \<Rightarrow> PlayerType \<Rightarrow> nat \<Rightarrow> Room" where
  "Room_new firstPlayer secondPlayer secondType rnd =
     (let ps = [Player_new (Some firstPlayer) HUMAN, Player_new secondPlayer secondType];
          cur = (if secondType = HUMAN then rnd mod 2 else 0);
          ps1 = ps[cur := (ps ! cur)\<lparr>squareType := BLUE\<rparr>];
          opp = (cur + 1) mod 2;
          ps2 = ps1[opp := (ps1 ! opp)\<lparr>squareType := RED\<rparr>]
      in \<lparr>board = Board_new, players = ps2, currentPlayerIndex = cur\<rparr>)"

section \<open>Search\<close>

text \<open>
  The two base cases of \<^verbatim>\<open>_minimax\<close>: the value it returns when \<open>depth === 0\<close> or the board
  is over.
\<close>

definition leafValue :: "Room \<Rightarrow> Board \<Rightarrow> int" where
  "leafValue rm b =
     (if isOver b then
        (case getSquareTypeWinner b of
           None \<Rightarrow> 0
         | Some t \<Rightarrow>
             if t = squareType (currentPlayer rm) then WIN_POINTS
             else if t = squareType (opponentPlayer rm) then OPP_WIN_POINTS
             else 0)
      else getScore b (currentPlayer rm))"

text \<open>
  \<^verbatim>\<open>_minimax\<close> with \<open>first = false\<close>, as every recursive call has it. The two \<^verbatim>\<open>for\<close> loops
  are \<open>maxLoop\<close> and \<open>minLoop\<close>, over the positions of \<open>getFree\<close> that are left, with the
  loop variables \<open>alpha\<close>, \<open>beta\<close>, \<open>maxEval\<close>, \<open>bestPos\<close>, \<open>minEval\<close> as arguments; a
  \<^verbatim>\<open>break\<close> returns them. The loops get \<open>depth - 1\<close>, the depth of the calls they make.
  An exception of \<open>setSquare\<close> or \<open>getFirstFreeSquarePos\<close> ends the search.
\<close>

function minimax :: "Room \<Rightarrow> Board \<Rightarrow> nat \<Rightarrow> num \<Rightarrow> num \<Rightarrow> bool \<Rightarrow> error + num"
  and maxLoop ::
    "Room \<Rightarrow> Board \<Rightarrow> nat \<Rightarrow> num \<Rightarrow> num \<Rightarrow> num \<Rightarrow> int option \<Rightarrow> int list
      \<Rightarrow> error + (num \<times> int option)"
  and minLoop ::
    "Room \<Rightarrow> Board \<Rightarrow> nat \<Rightarrow> num \<Rightarrow> num \<Rightarrow> num \<Rightarrow> int list \<Rightarrow> error + num"
  where
  "minimax rm b 0 alpha beta isMaximizer = Inr (Num (leafValue rm b))"
| "minimax rm b (Suc d) alpha beta isMaximizer =
     (if isOver b then Inr (Num (leafValue rm b))
      else if isMaximizer then
        (case maxLoop rm b d alpha beta NegInf None (getFree b) of
           Inl e \<Rightarrow> Inl e
         | Inr (maxEval, bestPos) \<Rightarrow> Inr maxEval)
      else minLoop rm b d alpha beta PosInf (getFree b))"
| "maxLoop rm b d alpha beta maxEval bestPos [] = Inr (maxEval, bestPos)"
| "maxLoop rm b d alpha beta maxEval bestPos (pos # rest) =
     (case dropSquare (copy b) pos (squareType (currentPlayer rm)) of
        Inl e \<Rightarrow> Inl e
      | Inr c \<Rightarrow>
         (case minimax rm c d alpha beta False of
            Inl e \<Rightarrow> Inl e
          | Inr currentEval \<Rightarrow>
              let maxEval' = (if currentEval > maxEval then currentEval else maxEval);
                  bestPos' = (if currentEval > maxEval then Some pos else bestPos);
                  alpha' = max alpha currentEval
              in if beta \<le> alpha' then Inr (maxEval', bestPos')
                 else maxLoop rm b d alpha' beta maxEval' bestPos' rest))"
| "minLoop rm b d alpha beta minEval [] = Inr minEval"
| "minLoop rm b d alpha beta minEval (pos # rest) =
     (case dropSquare (copy b) pos (squareType (opponentPlayer rm)) of
        Inl e \<Rightarrow> Inl e
      | Inr c \<Rightarrow>
         (case minimax rm c d alpha beta True of
            Inl e \<Rightarrow> Inl e
          | Inr currentEval \<Rightarrow>
              let minEval' = min currentEval minEval;
                  beta' = min beta currentEval
              in if beta' \<le> alpha then Inr minEval'
                 else minLoop rm b d alpha beta' minEval' rest))"
  by pat_completeness auto
termination
  by (relation "inv_image (less_than <*lex*> less_than)
        (\<lambda>x. case x of
           Inl (rm, b, d, al, be, m) \<Rightarrow> (d, 0)
         | Inr (Inl (rm, b, d, al, be, mx, bp, l)) \<Rightarrow> (d, Suc (length l))
         | Inr (Inr (rm, b, d, al, be, mn, l)) \<Rightarrow> (d, Suc (length l)))")
    auto

text \<open>
  \<^verbatim>\<open>_minimax\<close> with \<open>first = true\<close>: the same base cases and loops, and \<open>bestPos\<close> returned
  where the maximizer returned \<open>maxEval\<close>. The result is a JavaScript number or
  \<^verbatim>\<open>undefined\<close> (\<open>None\<close>, a \<open>bestPos\<close> that no iteration assigned).
\<close>

definition minimaxFirst ::
  "Room \<Rightarrow> Board \<Rightarrow> nat \<Rightarrow> num \<Rightarrow> num \<Rightarrow> bool \<Rightarrow> error + num option" where
  "minimaxFirst rm b depth alpha beta isMaximizer =
     (if depth = 0 \<or> isOver b then Inr (Some (Num (leafValue rm b)))
      else if isMaximizer then
        (case maxLoop rm b (depth - 1) alpha beta NegInf None (getFree b) of
           Inl e \<Rightarrow> Inl e
         | Inr (maxEval, bestPos) \<Rightarrow> Inr (map_option Num bestPos))
      else
        (case minLoop rm b (depth - 1) alpha beta PosInf (getFree b) of
           Inl e \<Rightarrow> Inl e
         | Inr minEval \<Rightarrow> Inr (Some minEval)))"

section \<open>Playing\<close>

text \<open>
  The position the bot's \<^verbatim>\<open>switch\<close> in \<^verbatim>\<open>play\<close> computes for the current player: \<open>None\<close> when
  no case matches (a human), else the value of the argument of the chained \<^verbatim>\<open>this.play\<close>,
  or the exception its evaluation raised. \<open>rnd\<close> is the draw behind
  \<^verbatim>\<open>Math.floor(Math.random() * free.length)\<close>, an index below \<open>free.length\<close>: \<open>rnd mod
  length free\<close>. Reading an array outside its bounds gives \<^verbatim>\<open>undefined\<close>.
\<close>

definition botPosition :: "Room \<Rightarrow> nat \<Rightarrow> (error + num option) option" where
  "botPosition rm rnd =
     (case ptype (currentPlayer rm) of
        HUMAN \<Rightarrow> None
      | EASY_BOT \<Rightarrow> Some (minimaxFirst rm (board rm) 1 NegInf PosInf True)
      | NORMAL_BOT \<Rightarrow> Some (minimaxFirst rm (board rm) 3 NegInf PosInf True)
      | STUPID_BOT \<Rightarrow>
          Some (Inr (case getFree (board rm) of [] \<Rightarrow> None | p # _ \<Rightarrow> Some (Num p)))
      | RANDOM_BOT \<Rightarrow>
          (let free = getFree (board rm)
           in Some (Inr (if free = [] then None
                         else Some (Num (free ! (rnd mod length free))))))
      | CHEAT_BOT \<Rightarrow> Some (minimaxFirst rm (board rm) 8 NegInf PosInf True))"

text \<open>
  How a call of \<^verbatim>\<open>play\<close> ends: it throws before it builds its promise, or the promise is
  rejected (an exception inside the executor), or the promise is resolved.
\<close>

datatype outcome = Thrown error | Rejected error | Resolved

text \<open>
  What the chained \<^verbatim>\<open>this.play(...)\<close> of the bot leaves to the call it sits in: when it
  throws, the executor it was called from rejects; when it returns its promise, that
  promise is dropped, rejected or not, and the executor goes on to \<^verbatim>\<open>resolve()\<close>.
\<close>

definition chained :: "Room \<times> outcome \<Rightarrow> Room \<times> outcome" where
  "chained r =
     (case r of
        (rm', Thrown e) \<Rightarrow> (rm', Rejected e)
      | (rm', Rejected e) \<Rightarrow> (rm', Resolved)
      | (rm', Resolved) \<Rightarrow> (rm', Resolved))"

definition empties :: "Board \<Rightarrow> nat" where
  "empties b = sum_list (map (\<lambda>col. count_list col EMPTY) b)"

lemma count_list_update_less:
  assumes "i < length xs" "xs ! i = a" "v \<noteq> a"
  shows "count_list (xs[i := v]) a < count_list xs a"
  using assms
proof (induction xs arbitrary: i)
  case Nil
  then show ?case by simp
next
  case (Cons x xs)
  then show ?case by (cases i) auto
qed

lemma sum_list_map_update_less:
  assumes "i < length xs" "(f v :: nat) < f (xs ! i)"
  shows "sum_list (map f (xs[i := v])) < sum_list (map f xs)"
  using assms
proof (induction xs arbitrary: i)
  case Nil
  then show ?case by simp
next
  case (Cons x xs)
  then show ?case by (cases i) auto
qed

lemma setSquare_empties:
  assumes "setSquare b x y t = Inr b'"
  shows "empties b' < empties b"
proof -
  from assms have r: "nat x < length b" "nat y < length (b ! nat x)"
    and e: "b ! nat x ! nat y = EMPTY" and t: "t \<noteq> EMPTY"
    and b': "b' = b[nat x := (b ! nat x)[nat y := t]]"
    by (auto simp: setSquare_def isEmpty_def sq_def split: if_splits)
  have "count_list ((b ! nat x)[nat y := t]) EMPTY < count_list (b ! nat x) EMPTY"
    using r(2) e t by (rule count_list_update_less)
  then show ?thesis
    unfolding empties_def b' using r(1) by (rule sum_list_map_update_less[rotated])
qed

lemma dropSquare_empties:
  "dropSquare b pos t = Inr b' \<Longrightarrow> empties b' < empties b"
  by (auto simp: dropSquare_def split: sum.splits dest: setSquare_empties)

text \<open>
  \<^verbatim>\<open>play\<close>. The range test and the \<open>hasFreeSquare\<close> test throw; what follows runs inside the
  promise's executor, where an exception rejects the promise. The chained \<^verbatim>\<open>this.play\<close> of
  the bot is a call like any other, and \<open>chained\<close> says what its end means here.
  Called with \<^verbatim>\<open>undefined\<close>, \<^verbatim>\<open>play\<close> passes the range test and \<open>hasFreeSquare\<close> throws
  "Column invalid."; an infinity fails the range test. \<open>rnd\<close> lists the random draws, one
  for each call in the chain.
\<close>

function play :: "Room \<Rightarrow> int \<Rightarrow> nat list \<Rightarrow> Room \<times> outcome" where
  "play rm pos rnd =
     (if pos < 0 \<or> pos \<ge> cols then (rm, Thrown InvalidColumn)
      else case hasFreeSquare (board rm) pos of
        Inl e \<Rightarrow> (rm, Thrown e)
      | Inr free \<Rightarrow>
         if \<not> free then (rm, Thrown ColumnFull)
         else
          (case dropSquare (board rm) pos (squareType (currentPlayer rm)) of
             Inl e \<Rightarrow> (rm, Rejected e)
           | Inr b' \<Rightarrow>
              if \<not> isOver b' then
                (case botPosition (swapPlayer (rm\<lparr>board := b'\<rparr>))
                        (case rnd of [] \<Rightarrow> 0 | r # _ \<Rightarrow> r) of
                   None \<Rightarrow> (swapPlayer (rm\<lparr>board := b'\<rparr>), Resolved)
                 | Some (Inl e) \<Rightarrow> (swapPlayer (rm\<lparr>board := b'\<rparr>), Rejected e)
                 | Some (Inr None) \<Rightarrow> (swapPlayer (rm\<lparr>board := b'\<rparr>), Rejected InvalidColumn)
                 | Some (Inr (Some NegInf)) \<Rightarrow>
                     (swapPlayer (rm\<lparr>board := b'\<rparr>), Rejected InvalidColumn)
                 | Some (Inr (Some PosInf)) \<Rightarrow>
                     (swapPlayer (rm\<lparr>board := b'\<rparr>), Rejected InvalidColumn)
                 | Some (Inr (Some (Num p))) \<Rightarrow>
                     chained (play (swapPlayer (rm\<lparr>board := b'\<rparr>)) p (tl rnd)))
              else (rm\<lparr>board := b'\<rparr>, Resolved)))"
  by pat_completeness auto
termination
proof (relation "measure (\<lambda>(rm, pos, rnd). empties (board rm))")
  show "wf (measure (\<lambda>(rm, pos, rnd). empties (board rm)))" by simp
next
  fix rm :: Room and pos :: int and rnd :: "nat list" and b' :: Board
  assume "dropSquare (board rm) pos (squareType (currentPlayer rm)) = Inr b'"
  then have "empties b' < empties (board rm)" by (rule dropSquare_empties)
  then show "\<And>p. ((swapPlayer (rm\<lparr>board := b'\<rparr>), p, tl rnd), rm, pos, rnd)
      \<in> measure (\<lambda>(rm, pos, rnd). empties (board rm))"
    by (simp add: swapPlayer_def)
qed

declare play.simps [simp del]

text \<open>\<^verbatim>\<open>getWinner\<close>; \<^verbatim>\<open>null\<close> is \<open>None\<close>.\<close>

definition getWinner :: "Room \<Rightarrow> error + Player option" where
  "getWinner rm =
     (if \<not> isOver (board rm) then Inl GameInProgress
      else case getSquareTypeWinner (board rm) of
        None \<Rightarrow> Inr None
      | Some typeWinner \<Rightarrow>
          Inr (Some (if squareType (players rm ! 0) = typeWinner
                     then players rm ! 0 else players rm ! 1)))"

section \<open>Example boards\<close>

definition board_one_drop :: Board where
  "board_one_drop =
     [[EMPTY, EMPTY, EMPTY, EMPTY, EMPTY, RED],
      [EMPTY, EMPTY, EMPTY, EMPTY, EMPTY, EMPTY],
      [EMPTY, EMPTY, EMPTY, EMPTY, EMPTY, EMPTY],
      [EMPTY, EMPTY, EMPTY, EMPTY, EMPTY, EMPTY],
      [EMPTY, EMPTY, EMPTY, EMPTY, EMPTY, EMPTY],
      [EMPTY, EMPTY, EMPTY, EMPTY, EMPTY, EMPTY],
      [EMPTY, EMPTY, EMPTY, EMPTY, EMPTY, EMPTY]]"

text \<open>
  The runs of four of the specification: from a start square, four squares along one of
  the four orientations (down a column, along a row, along either diagonal), all on the
  board. \<open>hasLine b s\<close> says that one of them is occupied entirely by the side \<open>s\<close>.
\<close>

definition directions :: "(int \<times> int) list" where
  "directions = [(0, 1), (1, 0), (1, - 1), (1, 1)]"

definition inBoard :: "int \<times> int \<Rightarrow> bool" where
  "inBoard c = (0 \<le> fst c \<and> fst c < cols \<and> 0 \<le> snd c \<and> snd c < rows)"

definition windowCells :: "int \<Rightarrow> int \<Rightarrow> int \<times> int \<Rightarrow> (int \<times> int) list" where
  "windowCells x y d = map (\<lambda>k. (x + k * fst d, y + k * snd d)) [0..3]"

definition allWindows :: "(int \<times> int) list list" where
  "allWindows =
     concat (map (\<lambda>d. concat (map (\<lambda>x. concat (map (\<lambda>y.
         if list_all inBoard (windowCells x y d) then [windowCells x y d] else [])
       [0..rows - 1])) [0..cols - 1])) directions)"

definition hasLine :: "Board \<Rightarrow> SquareType \<Rightarrow> bool" where
  "hasLine b s =
     (s \<noteq> EMPTY \<and> list_ex (\<lambda>w. list_all (\<lambda>c. sq b (fst c) (snd c) = s) w) allWindows)"

text \<open>
  What the two \<^verbatim>\<open>while\<close> loops of the winner scan test: four equal, non-empty squares from
  counter \<open>y\<close> down, or from counter \<open>x\<close> up.
\<close>

definition lineDown :: "(int \<Rightarrow> Square) \<Rightarrow> int \<Rightarrow> SquareType \<Rightarrow> bool" where
  "lineDown cell y s =
     (s \<noteq> EMPTY \<and> cell y = s \<and> cell (y - 1) = s \<and> cell (y - 2) = s \<and> cell (y - 3) = s)"

definition lineUp :: "(int \<Rightarrow> Square) \<Rightarrow> int \<Rightarrow> SquareType \<Rightarrow> bool" where
  "lineUp cell x s =
     (s \<noteq> EMPTY \<and> cell x = s \<and> cell (x + 1) = s \<and> cell (x + 2) = s \<and> cell (x + 3) = s)"

definition board_red_column :: Board where
  "board_red_column =
     [[EMPTY, EMPTY, RED, RED, RED, RED],
      [EMPTY, EMPTY, EMPTY, BLUE, BLUE, BLUE],
      [EMPTY, EMPTY, EMPTY, EMPTY, EMPTY, EMPTY],
      [EMPTY, EMPTY, EMPTY, EMPTY, EMPTY, EMPTY],
      [EMPTY, EMPTY, EMPTY, EMPTY, EMPTY, EMPTY],
      [EMPTY, EMPTY, EMPTY, EMPTY, EMPTY, EMPTY],
      [EMPTY, EMPTY, EMPTY, EMPTY, EMPTY, EMPTY]]"

definition board_two_lines :: Board where
  "board_two_lines =
     [[EMPTY, EMPTY, RED, RED, RED, RED],
      [EMPTY, EMPTY, BLUE, BLUE, BLUE, BLUE],
      [EMPTY, EMPTY, EMPTY, EMPTY, EMPTY, EMPTY],
      [EMPTY, EMPTY, EMPTY, EMPTY, EMPTY, EMPTY],
      [EMPTY, EMPTY, EMPTY, EMPTY, EMPTY, EMPTY],
      [EMPTY, EMPTY, EMPTY, EMPTY, EMPTY, EMPTY],
      [EMPTY, EMPTY, EMPTY, EMPTY, EMPTY, EMPTY]]"

text \<open>
  The heuristic of the specification: 4 points for each square of the side in the center
  column, and for each run of four the table value of (number of empty squares, number of
  squares of the side).
\<close>

definition tableValue :: "int \<Rightarrow> int \<Rightarrow> int" where
  "tableValue nb_empty nb_side =
     (if nb_empty = 0 \<and> nb_side = 4 then 10000
      else if nb_empty = 0 \<and> nb_side = 0 then - 1000
      else if nb_empty = 1 \<and> nb_side = 3 then 5
      else if nb_empty = 1 \<and> nb_side = 0 then - 5
      else if nb_empty = 2 \<and> nb_side = 2 then 2
      else if nb_empty = 2 \<and> nb_side = 0 then - 2
      else 0)"

definition windowValue :: "Board \<Rightarrow> SquareType \<Rightarrow> (int \<times> int) list \<Rightarrow> int" where
  "windowValue b s w =
     tableValue (int (length (filter (\<lambda>c. sq b (fst c) (snd c) = EMPTY) w)))
       (int (length (filter (\<lambda>c. sq b (fst c) (snd c) = s) w)))"

definition centerBonus :: "Board \<Rightarrow> SquareType \<Rightarrow> int" where
  "centerBonus b s = 4 * int (length (filter (\<lambda>y. sq b 3 y = s) [0..rows - 1]))"

definition scoreSpec :: "Board \<Rightarrow> SquareType \<Rightarrow> int" where
  "scoreSpec b s = centerBonus b s + sum_list (map (windowValue b s) allWindows)"

definition emptyCount :: "Square \<Rightarrow> int" where
  "emptyCount c = (if c = EMPTY then 1 else 0)"

definition sideCount :: "SquareType \<Rightarrow> Square \<Rightarrow> int" where
  "sideCount s c = (if c = s then 1 else 0)"

text \<open>The board with the two sides exchanged, for the symmetry of the heuristic.\<close>

fun swapType :: "SquareType \<Rightarrow> SquareType" where
  "swapType EMPTY = EMPTY"
| "swapType RED = BLUE"
| "swapType BLUE = RED"

definition swapSides :: "Board \<Rightarrow> Board" where
  "swapSides b = map (map swapType) b"

definition red_player :: Player where
  "red_player = \<lparr>pmember = Some 1, ptype = HUMAN, squareType = RED\<rparr>"

definition blue_player :: Player where
  "blue_player = \<lparr>pmember = None, ptype = EASY_BOT, squareType = BLUE\<rparr>"

text \<open>
  Brute-force minimax, as the specification describes the search without its pruning:
  the same base cases, and below them the maximum (the search's own turn) or the
  minimum (the opponent's turn) over every free column of the value of the board with a
  mark dropped into that column of a copy. \<open>bruteForceColumn\<close> is the lowest-indexed
  free column whose value is the maximum.
\<close>

definition childBoard :: "Board \<Rightarrow> int \<Rightarrow> SquareType \<Rightarrow> Board" where
  "childBoard b pos t = (case dropSquare (copy b) pos t of Inr c \<Rightarrow> c | Inl e \<Rightarrow> copy b)"

fun maxOf :: "num list \<Rightarrow> num" where
  "maxOf [] = NegInf"
| "maxOf (v # vs) = max v (maxOf vs)"

fun minOf :: "num list \<Rightarrow> num" where
  "minOf [] = PosInf"
| "minOf (v # vs) = min v (minOf vs)"

fun bruteForce :: "Room \<Rightarrow> Board \<Rightarrow> nat \<Rightarrow> bool \<Rightarrow> num" where
  "bruteForce rm b 0 maximizing = Num (leafValue rm b)"
| "bruteForce rm b (Suc d) maximizing =
     (if isOver b then Num (leafValue rm b)
      else if maximizing then
        maxOf (map (\<lambda>pos. bruteForce rm (childBoard b pos (squareType (currentPlayer rm))) d False)
                 (getFree b))
      else
        minOf (map (\<lambda>pos. bruteForce rm (childBoard b pos (squareType (opponentPlayer rm))) d True)
                 (getFree b)))"

definition bruteForceColumn :: "Room \<Rightarrow> Board \<Rightarrow> nat \<Rightarrow> int option" where
  "bruteForceColumn rm b depth =
     find (\<lambda>pos. bruteForce rm (childBoard b pos (squareType (currentPlayer rm))) (depth - 1) False
                  = bruteForce rm b depth True)
       (getFree b)"

text \<open>
  What a search with window \<open>(alpha, beta)\<close> promises about its result \<open>v\<close> when the
  true value is \<open>m\<close>: exact inside the window, a bound outside.
\<close>

definition approx :: "num \<Rightarrow> num \<Rightarrow> num \<Rightarrow> num \<Rightarrow> bool" where
  "approx alpha beta m v =
     ((v \<le> alpha \<longrightarrow> m \<le> v) \<and> (alpha < v \<and> v < beta \<longrightarrow> v = m) \<and> (beta \<le> v \<longrightarrow> v \<le> m))"

definition board_late :: Board where
  "board_late =
     [[RED, BLUE, RED, BLUE, BLUE, BLUE],
      [EMPTY, RED, RED, BLUE, BLUE, RED],
      [EMPTY, BLUE, BLUE, RED, RED, RED],
      [RED, RED, BLUE, BLUE, RED, RED],
      [EMPTY, RED, RED, RED, BLUE, BLUE],
      [RED, RED, BLUE, RED, BLUE, RED],
      [RED, BLUE, BLUE, RED, BLUE, RED]]"

definition room_late :: Room where
  "room_late =
     \<lparr>board = board_late,
      players = [\<lparr>pmember = Some 1, ptype = HUMAN, squareType = BLUE\<rparr>,
                 \<lparr>pmember = None, ptype = EASY_BOT, squareType = RED\<rparr>],
      currentPlayerIndex = 1\<rparr>"

text \<open>
  What the constructors establish and every move keeps: a board of 7 columns of 6
  squares, two players, a turn index below 2, and two different square types, neither
  empty, for the two players.
\<close>

definition wf_room :: "Room \<Rightarrow> bool" where
  "wf_room rm =
     (wf_board (board rm) \<and> length (players rm) = 2 \<and> currentPlayerIndex rm < 2
      \<and> squareType (players rm ! 0) \<noteq> EMPTY \<and> squareType (players rm ! 1) \<noteq> EMPTY
      \<and> squareType (players rm ! 0) \<noteq> squareType (players rm ! 1))"

text \<open>
  Gravity: in every column, below an occupied square (at a larger row index) every square
  is occupied.
\<close>

definition gravity :: "Board \<Rightarrow> bool" where
  "gravity b =
     list_all (\<lambda>x. list_all (\<lambda>y.
         sq b x y = EMPTY \<or> list_all (\<lambda>y'. sq b x y' \<noteq> EMPTY) [y + 1..rows - 1])
       [0..rows - 1]) [0..cols - 1]"

text \<open>
  The rooms reachable from the constructor by accepted calls of \<^verbatim>\<open>play\<close> (calls whose
  promise is resolved).
\<close>

inductive reachable :: "Room \<Rightarrow> bool" where
  start: "reachable (Room_new firstPlayer secondPlayer secondType rnd)"
| step: "reachable rm \<Longrightarrow> play rm pos rnd = (rm', Resolved) \<Longrightarrow> reachable rm'"

text \<open>
  Rooms of a game against the stupid bot in which the human, playing blue, only plays
  column 1 and the bot, playing red, answers in column 0: \<open>room_stupid n m\<close> has \<open>n\<close>
  red marks in column 0 and \<open>m\<close> blue marks in column 1, and the human is to move.
\<close>

definition stacked :: "nat \<Rightarrow> SquareType \<Rightarrow> Square list" where
  "stacked n t = replicate (6 - n) EMPTY @ replicate n t"

definition room_stupid :: "nat \<Rightarrow> nat \<Rightarrow> Room" where
  "room_stupid n m =
     \<lparr>board = [stacked n RED, stacked m BLUE] @ replicate 5 (stacked 0 EMPTY),
      players = [\<lparr>pmember = Some 1, ptype = HUMAN, squareType = BLUE\<rparr>,
                 \<lparr>pmember = None, ptype = STUPID_BOT, squareType = RED\<rparr>],
      currentPlayerIndex = 0\<rparr>"

section \<open>Board facts\<close>

lemma upto_0_5: "[0..5::int] = [0,1,2,3,4,5]" by code_simp
lemma upto_0_6: "[0..6::int] = [0,1,2,3,4,5,6]" by code_simp
lemma upto_0_3: "[0..3::int] = [0,1,2,3]" by code_simp
lemma upto_3_5: "[3..5::int] = [3,4,5]" by code_simp
lemma upto_3_6: "[3..6::int] = [3,4,5,6]" by code_simp

lemma hasFreeSquare_iff:
  "hasFreeSquare b col = Inr True \<longleftrightarrow>
     0 \<le> col \<and> col < 7 \<and> (\<exists>y. 0 \<le> y \<and> y \<le> 5 \<and> sq b col y = EMPTY)"
  by (auto simp: hasFreeSquare_def list_ex_iff isEmpty_def)

lemma find_rev_upto:
  "find P (rev [i..j]) = Some y \<longleftrightarrow>
     i \<le> y \<and> y \<le> j \<and> P y \<and> (\<forall>z. y < z \<and> z \<le> j \<longrightarrow> \<not> P z)"
proof (induction "nat (j + 1 - i)" arbitrary: j)
  case 0
  then show ?case by auto
next
  case (Suc n)
  then have ij: "i \<le> j" and n: "n = nat (j - 1 + 1 - i)" by auto
  have IH: "find P (rev [i..j - 1]) = Some y \<longleftrightarrow>
     i \<le> y \<and> y \<le> j - 1 \<and> P y \<and> (\<forall>z. y < z \<and> z \<le> j - 1 \<longrightarrow> \<not> P z)"
    using Suc(1)[OF n] .
  have e: "rev [i..j] = j # rev [i..j - 1]" using ij by (simp add: upto_rec2)
  show ?case
  proof (cases "P j")
    case True
    then show ?thesis unfolding e using ij by (auto simp: le_less)
  next
    case False
    have "\<And>z. z \<le> j \<longleftrightarrow> z = j \<or> z \<le> j - 1" by arith
    then show ?thesis unfolding e using False IH by auto
  qed
qed

lemma find_rev_upto_None:
  "find P (rev [i..j]) = None \<longleftrightarrow> (\<forall>z. i \<le> z \<and> z \<le> j \<longrightarrow> \<not> P z)"
  by (auto simp: find_None_iff)

lemma getFirstFreeSquarePos_Inr_iff:
  "getFirstFreeSquarePos b col = Inr y \<longleftrightarrow>
     0 \<le> col \<and> col < 7 \<and> 0 \<le> y \<and> y \<le> 5 \<and> sq b col y = EMPTY
     \<and> (\<forall>z. y < z \<and> z \<le> 5 \<longrightarrow> sq b col z \<noteq> EMPTY)"
proof -
  have u: "\<And>x2. \<lbrakk>x2 \<le> 5; sq b col x2 = EMPTY; \<forall>z. x2 < z \<and> z \<le> 5 \<longrightarrow> sq b col z \<noteq> EMPTY;
      y \<le> 5; sq b col y = EMPTY; \<forall>z. y < z \<and> z \<le> 5 \<longrightarrow> sq b col z \<noteq> EMPTY\<rbrakk> \<Longrightarrow> x2 = y"
  proof -
    fix x2
    assume a: "x2 \<le> 5" "sq b col x2 = EMPTY" "\<forall>z. x2 < z \<and> z \<le> 5 \<longrightarrow> sq b col z \<noteq> EMPTY"
      "y \<le> 5" "sq b col y = EMPTY" "\<forall>z. y < z \<and> z \<le> 5 \<longrightarrow> sq b col z \<noteq> EMPTY"
    show "x2 = y"
    proof (rule ccontr)
      assume "x2 \<noteq> y"
      then consider "x2 < y" | "y < x2" by arith
      then show False using a by cases auto
    qed
  qed
  show ?thesis
    by (auto simp: getFirstFreeSquarePos_def hasFreeSquare_iff find_rev_upto isEmpty_def
        find_rev_upto_None split: option.splits intro: u)
qed


lemma getFirstFreeSquarePos_cases:
  "0 \<le> col \<Longrightarrow> col < 7 \<Longrightarrow>
     (\<exists>y. getFirstFreeSquarePos b col = Inr y) \<or> getFirstFreeSquarePos b col = Inl ColumnFull"
  by (simp add: getFirstFreeSquarePos_def split: option.splits)

lemma setSquare_Inr_iff:
  "setSquare b x y t = Inr b' \<longleftrightarrow>
     0 \<le> x \<and> x < 7 \<and> 0 \<le> y \<and> y < 6 \<and> (t = RED \<or> t = BLUE)
     \<and> nat x < length b \<and> nat y < length (b ! nat x) \<and> sq b x y = EMPTY
     \<and> b' = b[nat x := (b ! nat x)[nat y := t]]"
  by (auto simp: setSquare_def isEmpty_def)

lemma sq_update:
  assumes "0 \<le> x" "0 \<le> y" "0 \<le> x'" "0 \<le> y'" "nat x < length b" "nat y < length (b ! nat x)"
  shows "sq (b[nat x := (b ! nat x)[nat y := t]]) x' y' = (if x' = x \<and> y' = y then t else sq b x' y')"
proof (cases "x' = x")
  case True
  show ?thesis
  proof (cases "y' = y")
    case True
    with \<open>x' = x\<close> show ?thesis using assms by (simp add: sq_def)
  next
    case False
    then have "nat y' \<noteq> nat y" using assms by simp
    with \<open>x' = x\<close> show ?thesis using assms False by (simp add: sq_def)
  qed
next
  case False
  then have "nat x' \<noteq> nat x" using assms by simp
  then show ?thesis using False by (simp add: sq_def)
qed

lemma sq_setSquare:
  "setSquare b x y t = Inr b' \<Longrightarrow> 0 \<le> x' \<Longrightarrow> 0 \<le> y' \<Longrightarrow>
     sq b' x' y' = (if x' = x \<and> y' = y then t else sq b x' y')"
  by (simp add: setSquare_Inr_iff sq_update)

lemma dropSquare_Inr_iff:
  "dropSquare b pos t = Inr b' \<longleftrightarrow>
     (\<exists>y. getFirstFreeSquarePos b pos = Inr y \<and> setSquare b pos y t = Inr b')"
  by (auto simp: dropSquare_def split: sum.splits)

text \<open>
  Claim C8, as the code has it. Row \<open>rows - 1\<close> is the bottom row and
  \<open>getFirstFreeSquarePos\<close> returns the largest row index whose square is empty. After a
  successful drop into a column, the row it returns for that column is strictly smaller
  than before the drop, or the column is full and it fails with \<open>ColumnFull\<close>; and
  \<open>hasFreeSquare\<close> says whether an empty square remains in the column.
\<close>

theorem drop_lowers_first_free_row:
  assumes "dropSquare b col t = Inr b'"
  shows "\<exists>y. getFirstFreeSquarePos b col = Inr y
           \<and> ((\<exists>y'. getFirstFreeSquarePos b' col = Inr y' \<and> y' < y)
                \<or> getFirstFreeSquarePos b' col = Inl ColumnFull)
           \<and> hasFreeSquare b' col = Inr (\<exists>r. 0 \<le> r \<and> r < rows \<and> isEmpty (sq b' col r))"
proof -
  from assms obtain y where y: "getFirstFreeSquarePos b col = Inr y"
    and s: "setSquare b col y t = Inr b'"
    by (auto simp: dropSquare_Inr_iff)
  from y have col: "0 \<le> col" "col < 7" and yr: "0 \<le> y" "y \<le> 5"
    and top: "\<forall>z. y < z \<and> z \<le> 5 \<longrightarrow> sq b col z \<noteq> EMPTY"
    by (auto simp: getFirstFreeSquarePos_Inr_iff)
  from s have t: "t \<noteq> EMPTY" by (auto simp: setSquare_Inr_iff)
  have cell: "\<And>r. 0 \<le> r \<Longrightarrow> sq b' col r = (if r = y then t else sq b col r)"
    using sq_setSquare[OF s col(1)] by simp
  have lower: "y' < y" if "getFirstFreeSquarePos b' col = Inr y'" for y'
  proof -
    from that have y': "0 \<le> y'" "y' \<le> 5" "sq b' col y' = EMPTY"
      by (auto simp: getFirstFreeSquarePos_Inr_iff)
    then have "y' \<noteq> y" "sq b col y' = EMPTY" using cell[of y'] t by (auto split: if_splits)
    show ?thesis
    proof (rule ccontr)
      assume "\<not> y' < y"
      then have "y < y'" using \<open>y' \<noteq> y\<close> by arith
      then show False using top y'(2) \<open>sq b col y' = EMPTY\<close> by auto
    qed
  qed
  have "hasFreeSquare b' col = Inr (\<exists>r. 0 \<le> r \<and> r < rows \<and> isEmpty (sq b' col r))"
  proof -
    have "(\<exists>r. 0 \<le> r \<and> r < rows \<and> isEmpty (sq b' col r))
        = (\<exists>r. 0 \<le> r \<and> r \<le> 5 \<and> isEmpty (sq b' col r))"
    proof -
      have "\<And>r::int. (r < 6) = (r \<le> 5)" by arith
      then show ?thesis by simp
    qed
    then show ?thesis
      using col by (simp add: hasFreeSquare_def list_ex_iff Bex_def conj_ac)
  qed
  then show ?thesis
    using y lower getFirstFreeSquarePos_cases[OF col, of b'] by auto
qed

theorem drop_lowers_first_free_row_witness:
  "dropSquare Board_new 0 RED = Inr board_one_drop
   \<and> (\<exists>y. getFirstFreeSquarePos Board_new 0 = Inr y
           \<and> ((\<exists>y'. getFirstFreeSquarePos board_one_drop 0 = Inr y' \<and> y' < y)
                \<or> getFirstFreeSquarePos board_one_drop 0 = Inl ColumnFull)
           \<and> hasFreeSquare board_one_drop 0
               = Inr (\<exists>r. 0 \<le> r \<and> r < rows \<and> isEmpty (sq board_one_drop 0 r)))"
proof -
  have h: "dropSquare Board_new 0 RED = Inr board_one_drop" by code_simp
  show ?thesis using h drop_lowers_first_free_row[OF h] by simp
qed

text \<open>
  Claim C8 as the spec words it, with a row index that strictly increases, fails on the
  first drop into the empty board: the row returned goes from 5 to 4 and the column is
  not full.
\<close>

theorem first_free_row_increases_counterexample:
  "dropSquare Board_new 0 RED = Inr board_one_drop
   \<and> getFirstFreeSquarePos Board_new 0 = Inr 5
   \<and> getFirstFreeSquarePos board_one_drop 0 = Inr 4
   \<and> \<not> (5 < (4::int))"
  by code_simp

lemma firstReturn_Some: "firstReturn f xs = Some r \<Longrightarrow> \<exists>x\<in>set xs. f x = Some r"
  by (induction xs) (auto split: option.splits)

lemma firstReturn_None_iff: "firstReturn f xs = None \<longleftrightarrow> (\<forall>x\<in>set xs. f x = None)"
  by (induction xs) (auto split: option.splits)

lemma whileDown_done:
  "y - 4 \<le> cpt \<Longrightarrow>
     whileDown cell ct y cpt = y - 4 \<longleftrightarrow>
       (\<forall>c. y - 4 < c \<and> c \<le> cpt \<longrightarrow> cell c \<noteq> EMPTY \<and> cell c = ct)"
proof (induction cell ct y cpt rule: whileDown.induct)
  case (1 cell ct y cpt)
  show ?case
  proof (cases "cpt > y - 4 \<and> \<not> isEmpty (cell cpt) \<and> cell cpt = ct")
    case True
    then have IH: "whileDown cell ct y (cpt - 1) = y - 4 \<longleftrightarrow>
       (\<forall>c. y - 4 < c \<and> c \<le> cpt - 1 \<longrightarrow> cell c \<noteq> EMPTY \<and> cell c = ct)"
      using 1(1)[OF True] True by simp
    have "(\<forall>c. y - 4 < c \<and> c \<le> cpt \<longrightarrow> cell c \<noteq> EMPTY \<and> cell c = ct)
       \<longleftrightarrow> (\<forall>c. y - 4 < c \<and> c \<le> cpt - 1 \<longrightarrow> cell c \<noteq> EMPTY \<and> cell c = ct)"
    proof -
      have "\<And>c. c \<le> cpt \<longleftrightarrow> c \<le> cpt - 1 \<or> c = cpt" by arith
      then show ?thesis using True by (auto simp: isEmpty_def)
    qed
    then show ?thesis using True IH by (subst whileDown.simps) (auto simp: isEmpty_def)
  next
    case False
    show ?thesis
    proof (cases "cpt > y - 4")
      case True
      then have "whileDown cell ct y cpt = cpt" using False by (subst whileDown.simps) auto
      moreover have "\<not> (cell cpt \<noteq> EMPTY \<and> cell cpt = ct)" using False True by (auto simp: isEmpty_def)
      ultimately show ?thesis using True by auto
    next
      case False
      then have "cpt = y - 4" using 1(2) by simp
      then show ?thesis by (subst whileDown.simps) auto
    qed
  qed
qed

lemma all_window_down:
  "(\<forall>c. y - 4 < c \<and> c \<le> y \<longrightarrow> P c) \<longleftrightarrow> P y \<and> P (y - 1) \<and> P (y - 2) \<and> P (y - (3::int))"
proof -
  have "\<And>c. y - 4 < c \<and> c \<le> y \<longleftrightarrow> c = y \<or> c = y - 1 \<or> c = y - 2 \<or> c = y - 3" by arith
  then show ?thesis by auto
qed

lemma whileUp_done:
  "cpt \<le> x + 4 \<Longrightarrow>
     whileUp cell ct x cpt = x + 4 \<longleftrightarrow>
       (\<forall>c. cpt \<le> c \<and> c < x + 4 \<longrightarrow> cell c \<noteq> EMPTY \<and> cell c = ct)"
proof (induction cell ct x cpt rule: whileUp.induct)
  case (1 cell ct x cpt)
  show ?case
  proof (cases "cpt < x + 4 \<and> \<not> isEmpty (cell cpt) \<and> cell cpt = ct")
    case True
    then have IH: "whileUp cell ct x (cpt + 1) = x + 4 \<longleftrightarrow>
       (\<forall>c. cpt + 1 \<le> c \<and> c < x + 4 \<longrightarrow> cell c \<noteq> EMPTY \<and> cell c = ct)"
      using 1(1)[OF True] True by simp
    have "(\<forall>c. cpt \<le> c \<and> c < x + 4 \<longrightarrow> cell c \<noteq> EMPTY \<and> cell c = ct)
       \<longleftrightarrow> (\<forall>c. cpt + 1 \<le> c \<and> c < x + 4 \<longrightarrow> cell c \<noteq> EMPTY \<and> cell c = ct)"
    proof -
      have "\<And>c. cpt \<le> c \<longleftrightarrow> cpt + 1 \<le> c \<or> c = cpt" by arith
      then show ?thesis using True by (auto simp: isEmpty_def)
    qed
    then show ?thesis using True IH by (subst whileUp.simps) (auto simp: isEmpty_def)
  next
    case False
    show ?thesis
    proof (cases "cpt < x + 4")
      case True
      then have "whileUp cell ct x cpt = cpt" using False by (subst whileUp.simps) auto
      moreover have "\<not> (cell cpt \<noteq> EMPTY \<and> cell cpt = ct)" using False True by (auto simp: isEmpty_def)
      ultimately show ?thesis using True by auto
    next
      case False
      then have "cpt = x + 4" using 1(2) by simp
      then show ?thesis by (subst whileUp.simps) auto
    qed
  qed
qed

lemma all_window_up:
  "(\<forall>c. x \<le> c \<and> c < x + 4 \<longrightarrow> P c) \<longleftrightarrow> P x \<and> P (x + 1) \<and> P (x + 2) \<and> P (x + (3::int))"
proof -
  have "\<And>c. x \<le> c \<and> c < x + 4 \<longleftrightarrow> c = x \<or> c = x + 1 \<or> c = x + 2 \<or> c = x + 3" by arith
  then show ?thesis by auto
qed

lemma checkDown_iff:
  "(if whileDown cell (cell y) y y = y - 4 then Some (cell y) else None) = Some s
   \<longleftrightarrow> lineDown cell y s"
proof -
  have w: "whileDown cell ct y y = y - 4 \<longleftrightarrow>
      (\<forall>c. y - 4 < c \<and> c \<le> y \<longrightarrow> cell c \<noteq> EMPTY \<and> cell c = ct)" for ct
    by (rule whileDown_done) simp
  show ?thesis unfolding w all_window_down lineDown_def by auto
qed

lemma checkUp_iff:
  "(if whileUp cell (cell x) x x = x + 4 then Some (cell x) else None) = Some s
   \<longleftrightarrow> lineUp cell x s"
proof -
  have w: "whileUp cell ct x x = x + 4 \<longleftrightarrow>
      (\<forall>c. x \<le> c \<and> c < x + 4 \<longrightarrow> cell c \<noteq> EMPTY \<and> cell c = ct)" for ct
    by (rule whileUp_done) simp
  show ?thesis unfolding w all_window_up lineUp_def by auto
qed

lemma firstReturn2_Some:
  "firstReturn (\<lambda>a. firstReturn (f a) bs) as = Some s \<Longrightarrow> \<exists>a\<in>set as. \<exists>b\<in>set bs. f a b = Some s"
  by (blast dest: firstReturn_Some)

lemma firstReturn2_None:
  "firstReturn (\<lambda>a. firstReturn (f a) bs) as = None \<longleftrightarrow> (\<forall>a\<in>set as. \<forall>b\<in>set bs. f a b = None)"
  by (simp add: firstReturn_None_iff)

lemma scanDown_Some:
  assumes c0: "\<And>a y. c0 a y = cell a y y"
    and r: "firstReturn (\<lambda>a. firstReturn (\<lambda>y.
               let currentType = c0 a y
               in if whileDown (cell a y) currentType y y = y - 4
                  then Some currentType else None) ys) as = Some s"
  shows "\<exists>a\<in>set as. \<exists>y\<in>set ys. lineDown (cell a y) y s"
proof -
  from firstReturn2_Some[OF r] obtain a y where ay: "a \<in> set as" "y \<in> set ys"
    and "(if whileDown (cell a y) (cell a y y) y y = y - 4 then Some (cell a y y) else None) = Some s"
    by (auto simp: Let_def c0)
  then have "lineDown (cell a y) y s" by (simp only: checkDown_iff)
  with ay show ?thesis by blast
qed

lemma scanDown_None:
  assumes c0: "\<And>a y. c0 a y = cell a y y"
  shows "firstReturn (\<lambda>a. firstReturn (\<lambda>y.
               let currentType = c0 a y
               in if whileDown (cell a y) currentType y y = y - 4
                  then Some currentType else None) ys) as = None
     \<longleftrightarrow> (\<forall>a\<in>set as. \<forall>y\<in>set ys. \<forall>s. \<not> lineDown (cell a y) y s)"
proof -
  have "(if whileDown (cell a y) (cell a y y) y y = y - 4 then Some (cell a y y) else None) = None
      \<longleftrightarrow> (\<forall>s. \<not> lineDown (cell a y) y s)" for a y
    using checkDown_iff[of "cell a y" y] by (cases "whileDown (cell a y) (cell a y y) y y = y - 4") auto
  then show ?thesis by (simp add: firstReturn2_None Let_def c0)
qed

lemma scanUp_Some:
  assumes c0: "\<And>a x. c0 a x = cell a x x"
    and r: "firstReturn (\<lambda>a. firstReturn (\<lambda>x.
               let currentType = c0 a x
               in if whileUp (cell a x) currentType x x = x + 4
                  then Some currentType else None) xs) as = Some s"
  shows "\<exists>a\<in>set as. \<exists>x\<in>set xs. lineUp (cell a x) x s"
proof -
  from firstReturn2_Some[OF r] obtain a x where ax: "a \<in> set as" "x \<in> set xs"
    and "(if whileUp (cell a x) (cell a x x) x x = x + 4 then Some (cell a x x) else None) = Some s"
    by (auto simp: Let_def c0)
  then have "lineUp (cell a x) x s" by (simp only: checkUp_iff)
  with ax show ?thesis by blast
qed

lemma scanUp_None:
  assumes c0: "\<And>a x. c0 a x = cell a x x"
  shows "firstReturn (\<lambda>a. firstReturn (\<lambda>x.
               let currentType = c0 a x
               in if whileUp (cell a x) currentType x x = x + 4
                  then Some currentType else None) xs) as = None
     \<longleftrightarrow> (\<forall>a\<in>set as. \<forall>x\<in>set xs. \<forall>s. \<not> lineUp (cell a x) x s)"
proof -
  have "(if whileUp (cell a x) (cell a x x) x x = x + 4 then Some (cell a x x) else None) = None
      \<longleftrightarrow> (\<forall>s. \<not> lineUp (cell a x) x s)" for a x
    using checkUp_iff[of "cell a x" x] by (cases "whileUp (cell a x) (cell a x x) x x = x + 4") auto
  then show ?thesis by (simp add: firstReturn2_None Let_def c0)
qed

lemma bex_upto: "(\<exists>x\<in>set [i..j]. P x) \<longleftrightarrow> (\<exists>x. i \<le> x \<and> x \<le> j \<and> P x)"
  by auto

lemma ball_upto: "(\<forall>x\<in>set [i..j]. P x) \<longleftrightarrow> (\<forall>x. i \<le> x \<and> x \<le> j \<longrightarrow> P x)"
  by auto

lemma winVertical_Some:
  assumes "winVertical b = Some s"
  shows "\<exists>x y. 0 \<le> x \<and> x \<le> 6 \<and> 3 \<le> y \<and> y \<le> 5 \<and> lineDown (\<lambda>cpt. sq b x cpt) y s"
  using scanDown_Some[of "\<lambda>x y. sq b x y" "\<lambda>x y cpt. sq b x cpt", OF refl
        assms[unfolded winVertical_def]]
  unfolding bex_upto set_rev rows_def cols_def by simp

lemma winVertical_None:
  "winVertical b = None \<longleftrightarrow>
     (\<forall>x y s. 0 \<le> x \<and> x \<le> 6 \<and> 3 \<le> y \<and> y \<le> 5 \<longrightarrow> \<not> lineDown (\<lambda>cpt. sq b x cpt) y s)"
proof -
  have "winVertical b = None \<longleftrightarrow>
      (\<forall>a\<in>set ([0..cols - 1]). \<forall>i\<in>set (rev [3..rows - 1]). \<forall>s. \<not> lineDown ((\<lambda>x y cpt. sq b x cpt) a i) i s)"
    unfolding winVertical_def
    by (rule scanDown_None[of "\<lambda>x y. sq b x y" "\<lambda>x y cpt. sq b x cpt", OF refl])
  also have "\<dots> \<longleftrightarrow>
     (\<forall>x y s. 0 \<le> x \<and> x \<le> 6 \<and> 3 \<le> y \<and> y \<le> 5 \<longrightarrow> \<not> lineDown (\<lambda>cpt. sq b x cpt) y s)"
    unfolding ball_upto set_rev rows_def cols_def by auto
  finally show ?thesis .
qed

lemma winHorizontal_Some:
  assumes "winHorizontal b = Some s"
  shows "\<exists>x y. 0 \<le> x \<and> x \<le> 3 \<and> 0 \<le> y \<and> y \<le> 5 \<and> lineUp (\<lambda>cpt. sq b cpt y) x s"
  using scanUp_Some[of "\<lambda>y x. sq b x y" "\<lambda>y x cpt. sq b cpt y", OF refl
        assms[unfolded winHorizontal_def]]
  unfolding bex_upto set_rev rows_def cols_def by auto

lemma winHorizontal_None:
  "winHorizontal b = None \<longleftrightarrow>
     (\<forall>x y s. 0 \<le> x \<and> x \<le> 3 \<and> 0 \<le> y \<and> y \<le> 5 \<longrightarrow> \<not> lineUp (\<lambda>cpt. sq b cpt y) x s)"
proof -
  have "winHorizontal b = None \<longleftrightarrow>
      (\<forall>a\<in>set (rev [0..rows - 1]). \<forall>i\<in>set ([0..cols - 4]). \<forall>s. \<not> lineUp ((\<lambda>y x cpt. sq b cpt y) a i) i s)"
    unfolding winHorizontal_def
    by (rule scanUp_None[of "\<lambda>y x. sq b x y" "\<lambda>y x cpt. sq b cpt y", OF refl])
  also have "\<dots> \<longleftrightarrow>
     (\<forall>x y s. 0 \<le> x \<and> x \<le> 3 \<and> 0 \<le> y \<and> y \<le> 5 \<longrightarrow> \<not> lineUp (\<lambda>cpt. sq b cpt y) x s)"
    unfolding ball_upto set_rev rows_def cols_def by auto
  finally show ?thesis .
qed

lemma diag_first: "sq b x y = (\<lambda>cpt. sq b (x + (y - cpt)) cpt) y"
  by simp

lemma anti_first: "sq b x y = (\<lambda>cpt. sq b (x - (y - cpt)) cpt) y"
  by simp

lemma winDiagonal_Some:
  assumes "winDiagonal b = Some s"
  shows "\<exists>x y. 0 \<le> x \<and> x \<le> 3 \<and> 3 \<le> y \<and> y \<le> 5
           \<and> lineDown (\<lambda>cpt. sq b (x + (y - cpt)) cpt) y s"
  using scanDown_Some[of "\<lambda>x y. sq b x y" "\<lambda>x y cpt. sq b (x + (y - cpt)) cpt",
        OF diag_first assms[unfolded winDiagonal_def]]
  unfolding bex_upto set_rev rows_def cols_def by simp

lemma winDiagonal_None:
  "winDiagonal b = None \<longleftrightarrow>
     (\<forall>x y s. 0 \<le> x \<and> x \<le> 3 \<and> 3 \<le> y \<and> y \<le> 5
        \<longrightarrow> \<not> lineDown (\<lambda>cpt. sq b (x + (y - cpt)) cpt) y s)"
proof -
  have "winDiagonal b = None \<longleftrightarrow>
      (\<forall>a\<in>set ([0..cols - 4]). \<forall>i\<in>set (rev [3..rows - 1]). \<forall>s. \<not> lineDown ((\<lambda>x y cpt. sq b (x + (y - cpt)) cpt) a i) i s)"
    unfolding winDiagonal_def
    by (rule scanDown_None[of "\<lambda>x y. sq b x y" "\<lambda>x y cpt. sq b (x + (y - cpt)) cpt", OF diag_first])
  also have "\<dots> \<longleftrightarrow>
     (\<forall>x y s. 0 \<le> x \<and> x \<le> 3 \<and> 3 \<le> y \<and> y \<le> 5
        \<longrightarrow> \<not> lineDown (\<lambda>cpt. sq b (x + (y - cpt)) cpt) y s)"
    unfolding ball_upto set_rev rows_def cols_def by auto
  finally show ?thesis .
qed

lemma winAntiDiagonal_Some:
  assumes "winAntiDiagonal b = Some s"
  shows "\<exists>x y. 3 \<le> x \<and> x \<le> 6 \<and> 3 \<le> y \<and> y \<le> 5
           \<and> lineDown (\<lambda>cpt. sq b (x - (y - cpt)) cpt) y s"
  using scanDown_Some[of "\<lambda>x y. sq b x y" "\<lambda>x y cpt. sq b (x - (y - cpt)) cpt",
        OF anti_first assms[unfolded winAntiDiagonal_def]]
  unfolding bex_upto set_rev rows_def cols_def by simp

lemma winAntiDiagonal_None:
  "winAntiDiagonal b = None \<longleftrightarrow>
     (\<forall>x y s. 3 \<le> x \<and> x \<le> 6 \<and> 3 \<le> y \<and> y \<le> 5
        \<longrightarrow> \<not> lineDown (\<lambda>cpt. sq b (x - (y - cpt)) cpt) y s)"
proof -
  have "winAntiDiagonal b = None \<longleftrightarrow>
      (\<forall>a\<in>set (rev [3..cols - 1]). \<forall>i\<in>set (rev [3..rows - 1]). \<forall>s. \<not> lineDown ((\<lambda>x y cpt. sq b (x - (y - cpt)) cpt) a i) i s)"
    unfolding winAntiDiagonal_def
    by (rule scanDown_None[of "\<lambda>x y. sq b x y" "\<lambda>x y cpt. sq b (x - (y - cpt)) cpt", OF anti_first])
  also have "\<dots> \<longleftrightarrow>
     (\<forall>x y s. 3 \<le> x \<and> x \<le> 6 \<and> 3 \<le> y \<and> y \<le> 5
        \<longrightarrow> \<not> lineDown (\<lambda>cpt. sq b (x - (y - cpt)) cpt) y s)"
    unfolding ball_upto set_rev rows_def cols_def by auto
  finally show ?thesis .
qed

lemma windowCells_eq:
  "windowCells x y d =
     [(x, y), (x + fst d, y + snd d), (x + 2 * fst d, y + 2 * snd d),
      (x + 3 * fst d, y + 3 * snd d)]"
  by (simp add: windowCells_def upto_0_3)

lemma in_allWindows:
  "d \<in> set directions \<Longrightarrow> 0 \<le> x \<Longrightarrow> x \<le> 6 \<Longrightarrow> 0 \<le> y \<Longrightarrow> y \<le> 5 \<Longrightarrow>
     list_all inBoard (windowCells x y d) \<Longrightarrow> windowCells x y d \<in> set allWindows"
  unfolding allWindows_def by force

lemma allWindows_cases:
  assumes "w \<in> set allWindows"
  obtains d x y where "d \<in> set directions" "list_all inBoard (windowCells x y d)"
    "w = windowCells x y d"
  using assms unfolding allWindows_def by (auto split: if_splits)

lemma hasLine_iff:
  "hasLine b s \<longleftrightarrow>
     s \<noteq> EMPTY \<and> (\<exists>w\<in>set allWindows. \<forall>c\<in>set w. sq b (fst c) (snd c) = s)"
  by (simp add: hasLine_def list_ex_iff list_all_iff)

lemma hasLine_vertical:
  assumes "0 \<le> x" "x \<le> 6" "3 \<le> y" "y \<le> 5" "lineDown (\<lambda>cpt. sq b x cpt) y s"
  shows "hasLine b s"
proof -
  have "windowCells x (y - 3) (0, 1) \<in> set allWindows"
    using assms by (intro in_allWindows) (auto simp: directions_def windowCells_eq inBoard_def)
  moreover have "\<forall>c\<in>set (windowCells x (y - 3) (0, 1)). sq b (fst c) (snd c) = s"
    using assms(5) by (auto simp: windowCells_eq lineDown_def)
  ultimately show ?thesis using assms(5) unfolding hasLine_iff lineDown_def by blast
qed

lemma hasLine_horizontal:
  assumes "0 \<le> x" "x \<le> 3" "0 \<le> y" "y \<le> 5" "lineUp (\<lambda>cpt. sq b cpt y) x s"
  shows "hasLine b s"
proof -
  have "windowCells x y (1, 0) \<in> set allWindows"
    using assms by (intro in_allWindows) (auto simp: directions_def windowCells_eq inBoard_def)
  moreover have "\<forall>c\<in>set (windowCells x y (1, 0)). sq b (fst c) (snd c) = s"
    using assms(5) by (auto simp: windowCells_eq lineUp_def)
  ultimately show ?thesis using assms(5) unfolding hasLine_iff lineUp_def by blast
qed

lemma hasLine_diagonal:
  assumes "0 \<le> x" "x \<le> 3" "3 \<le> y" "y \<le> 5"
    "lineDown (\<lambda>cpt. sq b (x + (y - cpt)) cpt) y s"
  shows "hasLine b s"
proof -
  have "windowCells x y (1, - 1) \<in> set allWindows"
    using assms by (intro in_allWindows) (auto simp: directions_def windowCells_eq inBoard_def)
  moreover have "\<forall>c\<in>set (windowCells x y (1, - 1)). sq b (fst c) (snd c) = s"
    using assms(5) by (auto simp: windowCells_eq lineDown_def)
  ultimately show ?thesis using assms(5) unfolding hasLine_iff lineDown_def by blast
qed

lemma hasLine_antiDiagonal:
  assumes "3 \<le> x" "x \<le> 6" "3 \<le> y" "y \<le> 5"
    "lineDown (\<lambda>cpt. sq b (x - (y - cpt)) cpt) y s"
  shows "hasLine b s"
proof -
  have "windowCells (x - 3) (y - 3) (1, 1) \<in> set allWindows"
    using assms by (intro in_allWindows) (auto simp: directions_def windowCells_eq inBoard_def)
  moreover have "\<forall>c\<in>set (windowCells (x - 3) (y - 3) (1, 1)). sq b (fst c) (snd c) = s"
    using assms(5) by (auto simp: windowCells_eq lineDown_def)
  ultimately show ?thesis using assms(5) unfolding hasLine_iff lineDown_def by blast
qed

lemma hasLine_cases:
  assumes "hasLine b s"
  shows "(\<exists>x y. 0 \<le> x \<and> x \<le> 6 \<and> 3 \<le> y \<and> y \<le> 5 \<and> lineDown (\<lambda>cpt. sq b x cpt) y s)
       \<or> (\<exists>x y. 0 \<le> x \<and> x \<le> 3 \<and> 0 \<le> y \<and> y \<le> 5 \<and> lineUp (\<lambda>cpt. sq b cpt y) x s)
       \<or> (\<exists>x y. 0 \<le> x \<and> x \<le> 3 \<and> 3 \<le> y \<and> y \<le> 5
              \<and> lineDown (\<lambda>cpt. sq b (x + (y - cpt)) cpt) y s)
       \<or> (\<exists>x y. 3 \<le> x \<and> x \<le> 6 \<and> 3 \<le> y \<and> y \<le> 5
              \<and> lineDown (\<lambda>cpt. sq b (x - (y - cpt)) cpt) y s)"
proof -
  from assms obtain w where s: "s \<noteq> EMPTY" and w: "w \<in> set allWindows"
    and a: "\<forall>c\<in>set w. sq b (fst c) (snd c) = s"
    unfolding hasLine_iff by blast
  from w obtain d x y where d: "d \<in> set directions"
    and i: "list_all inBoard (windowCells x y d)" and e: "w = windowCells x y d"
    by (rule allWindows_cases)
  from d consider "d = (0, 1)" | "d = (1, 0)" | "d = (1, - 1)" | "d = (1, 1)"
    by (auto simp: directions_def)
  then show ?thesis
  proof cases
    case 1
    have "0 \<le> x \<and> x \<le> 6 \<and> 3 \<le> y + 3 \<and> y + 3 \<le> 5 \<and> lineDown (\<lambda>cpt. sq b x cpt) (y + 3) s"
      using i a s unfolding e 1 by (auto simp: windowCells_eq inBoard_def lineDown_def add.commute)
    then show ?thesis by blast
  next
    case 2
    have "0 \<le> x \<and> x \<le> 3 \<and> 0 \<le> y \<and> y \<le> 5 \<and> lineUp (\<lambda>cpt. sq b cpt y) x s"
      using i a s unfolding e 2 by (auto simp: windowCells_eq inBoard_def lineUp_def)
    then show ?thesis by blast
  next
    case 3
    have "0 \<le> x \<and> x \<le> 3 \<and> 3 \<le> y \<and> y \<le> 5 \<and> lineDown (\<lambda>cpt. sq b (x + (y - cpt)) cpt) y s"
      using i a s unfolding e 3 by (auto simp: windowCells_eq inBoard_def lineDown_def)
    then show ?thesis by blast
  next
    case 4
    have "3 \<le> x + 3 \<and> x + 3 \<le> 6 \<and> 3 \<le> y + 3 \<and> y + 3 \<le> 5
        \<and> lineDown (\<lambda>cpt. sq b (x + 3 - (y + 3 - cpt)) cpt) (y + 3) s"
      using i a s unfolding e 4 by (auto simp: windowCells_eq inBoard_def lineDown_def add.commute)
    then show ?thesis by blast
  qed
qed

lemma getSquareTypeWinner_Some_hasLine:
  assumes "getSquareTypeWinner b = Some s"
  shows "hasLine b s"
proof -
  from assms consider "winVertical b = Some s" | "winHorizontal b = Some s"
    | "winDiagonal b = Some s" | "winAntiDiagonal b = Some s"
    by (auto simp: getSquareTypeWinner_def split: option.splits)
  then show ?thesis
  proof cases
    case 1
    from winVertical_Some[OF this] show ?thesis by (blast intro: hasLine_vertical)
  next
    case 2
    from winHorizontal_Some[OF this] show ?thesis by (blast intro: hasLine_horizontal)
  next
    case 3
    from winDiagonal_Some[OF this] show ?thesis by (blast intro: hasLine_diagonal)
  next
    case 4
    from winAntiDiagonal_Some[OF this] show ?thesis by (blast intro: hasLine_antiDiagonal)
  qed
qed

lemma getSquareTypeWinner_None_iff:
  "getSquareTypeWinner b = None \<longleftrightarrow> (\<forall>s. \<not> hasLine b s)"
proof
  assume n: "getSquareTypeWinner b = None"
  then have v: "winVertical b = None" and h: "winHorizontal b = None"
    and d: "winDiagonal b = None" and a: "winAntiDiagonal b = None"
    by (auto simp: getSquareTypeWinner_def split: option.splits)
  show "\<forall>s. \<not> hasLine b s"
  proof (intro allI notI)
    fix s assume "hasLine b s"
    from hasLine_cases[OF this] show False
      using v h d a
      unfolding winVertical_None winHorizontal_None winDiagonal_None winAntiDiagonal_None
      by blast
  qed
next
  assume n: "\<forall>s. \<not> hasLine b s"
  show "getSquareTypeWinner b = None"
  proof (cases "getSquareTypeWinner b")
    case None
    then show ?thesis .
  next
    case (Some s)
    then show ?thesis using getSquareTypeWinner_Some_hasLine n by blast
  qed
qed

text \<open>
  Claim C2, as the code has it. When the scan returns a side, some run of four
  consecutive squares along one orientation is occupied entirely by that side; when some
  side has such a run, the scan returns a side that has one (the first the scan order
  meets: vertical, horizontal, diagonal, anti-diagonal), so it returns exactly that side
  when no other side has a run too; and on the empty board it returns no winner.
\<close>

theorem winner_scan_finds_lines:
  "(getSquareTypeWinner b = Some s \<longrightarrow> hasLine b s)
   \<and> (hasLine b s \<longrightarrow> (\<exists>s'. getSquareTypeWinner b = Some s' \<and> hasLine b s'))
   \<and> (hasLine b s \<and> (\<forall>s'. hasLine b s' \<longrightarrow> s' = s) \<longrightarrow> getSquareTypeWinner b = Some s)
   \<and> getSquareTypeWinner Board_new = None"
proof -
  have 1: "getSquareTypeWinner b = Some s \<longrightarrow> hasLine b s"
    by (simp add: getSquareTypeWinner_Some_hasLine)
  have 2: "\<exists>s'. getSquareTypeWinner b = Some s' \<and> hasLine b s'" if "hasLine b s"
  proof (cases "getSquareTypeWinner b")
    case None
    then show ?thesis using that by (simp add: getSquareTypeWinner_None_iff)
  next
    case (Some s')
    then show ?thesis by (simp add: getSquareTypeWinner_Some_hasLine)
  qed
  have 3: "getSquareTypeWinner b = Some s" if "hasLine b s" "\<forall>s'. hasLine b s' \<longrightarrow> s' = s"
    using 2[OF that(1)] that(2) by auto
  have 4: "getSquareTypeWinner Board_new = None" by code_simp
  from 1 2 3 4 show ?thesis by blast
qed

theorem winner_scan_finds_lines_witness:
  "hasLine board_red_column RED \<and> \<not> hasLine board_red_column BLUE
   \<and> \<not> hasLine board_red_column EMPTY
   \<and> getSquareTypeWinner board_red_column = Some RED"
proof -
  have h: "hasLine board_red_column RED" by code_simp
  have nb: "\<not> hasLine board_red_column BLUE" by code_simp
  have ne: "\<not> hasLine board_red_column EMPTY" by (simp add: hasLine_def)
  have u: "\<forall>s'. hasLine board_red_column s' \<longrightarrow> s' = RED"
  proof (intro allI impI)
    fix s' assume "hasLine board_red_column s'"
    then show "s' = RED" using nb ne by (cases s') auto
  qed
  show ?thesis using h nb ne u winner_scan_finds_lines[of board_red_column RED] by blast
qed

text \<open>
  Claim C2 as the spec words it, the scan returning a side if and only if that side has
  a run of four, fails on a board where both sides have one: blue has a run in column 1
  and the scan returns red, whose run in column 0 it meets first.
\<close>

theorem winner_scan_iff_line_counterexample:
  "hasLine board_two_lines BLUE \<and> getSquareTypeWinner board_two_lines = Some RED
   \<and> getSquareTypeWinner board_two_lines \<noteq> Some BLUE"
  by code_simp

lemma calcScore_tableValue: "calcScore e p = tableValue e p"
  by (simp add: calcScore_def tableValue_def)

lemma countDown_window:
  assumes "t \<noteq> EMPTY"
  shows "countDown cell t y y 0 0 =
     (emptyCount (cell y) + emptyCount (cell (y - 1)) + emptyCount (cell (y - 2))
        + emptyCount (cell (y - 3)),
      sideCount t (cell y) + sideCount t (cell (y - 1)) + sideCount t (cell (y - 2))
        + sideCount t (cell (y - 3)))"
proof -
  have step: "countDown cell t y cpt e p =
      countDown cell t y (cpt - 1) (e + emptyCount (cell cpt)) (p + sideCount t (cell cpt))"
    if "cpt > y - 4" for cpt e p
    using that assms
    by (subst countDown.simps) (auto simp: emptyCount_def sideCount_def isEmpty_def)
  have stop: "countDown cell t y (y - 4) e p = (e, p)" for e p
    by (subst countDown.simps) simp
  have "countDown cell t y y 0 0 = countDown cell t y (y - 1) (emptyCount (cell y)) (sideCount t (cell y))"
    by (subst step) simp_all
  also have "\<dots> = countDown cell t y (y - 2) (emptyCount (cell y) + emptyCount (cell (y - 1)))
       (sideCount t (cell y) + sideCount t (cell (y - 1)))"
    by (subst step) simp_all
  also have "\<dots> = countDown cell t y (y - 3)
       (emptyCount (cell y) + emptyCount (cell (y - 1)) + emptyCount (cell (y - 2)))
       (sideCount t (cell y) + sideCount t (cell (y - 1)) + sideCount t (cell (y - 2)))"
    by (subst step) simp_all
  also have "\<dots> = countDown cell t y (y - 4)
       (emptyCount (cell y) + emptyCount (cell (y - 1)) + emptyCount (cell (y - 2))
          + emptyCount (cell (y - 3)))
       (sideCount t (cell y) + sideCount t (cell (y - 1)) + sideCount t (cell (y - 2))
          + sideCount t (cell (y - 3)))"
    by (subst step) simp_all
  finally show ?thesis by (simp add: stop)
qed

lemma countUp_window:
  assumes "t \<noteq> EMPTY"
  shows "countUp cell t x x 0 0 =
     (emptyCount (cell x) + emptyCount (cell (x + 1)) + emptyCount (cell (x + 2))
        + emptyCount (cell (x + 3)),
      sideCount t (cell x) + sideCount t (cell (x + 1)) + sideCount t (cell (x + 2))
        + sideCount t (cell (x + 3)))"
proof -
  have step: "countUp cell t x cpt e p =
      countUp cell t x (cpt + 1) (e + emptyCount (cell cpt)) (p + sideCount t (cell cpt))"
    if "cpt < x + 4" for cpt e p
    using that assms
    by (subst countUp.simps) (auto simp: emptyCount_def sideCount_def isEmpty_def)
  have stop: "countUp cell t x (x + 4) e p = (e, p)" for e p
    by (subst countUp.simps) simp
  have "countUp cell t x x 0 0 = countUp cell t x (x + 1) (emptyCount (cell x)) (sideCount t (cell x))"
    by (subst step) (simp_all add: algebra_simps)
  also have "\<dots> = countUp cell t x (x + 2) (emptyCount (cell x) + emptyCount (cell (x + 1)))
       (sideCount t (cell x) + sideCount t (cell (x + 1)))"
    by (subst step) (simp_all add: algebra_simps)
  also have "\<dots> = countUp cell t x (x + 3)
       (emptyCount (cell x) + emptyCount (cell (x + 1)) + emptyCount (cell (x + 2)))
       (sideCount t (cell x) + sideCount t (cell (x + 1)) + sideCount t (cell (x + 2)))"
    by (subst step) (simp_all add: algebra_simps)
  also have "\<dots> = countUp cell t x (x + 4)
       (emptyCount (cell x) + emptyCount (cell (x + 1)) + emptyCount (cell (x + 2))
          + emptyCount (cell (x + 3)))
       (sideCount t (cell x) + sideCount t (cell (x + 1)) + sideCount t (cell (x + 2))
          + sideCount t (cell (x + 3)))"
    by (subst step) (simp_all add: algebra_simps)
  finally show ?thesis by (simp add: stop)
qed

lemma fold_add_sum_list:
  "fold (\<lambda>y acc. acc + g y) ys (a::int) = a + sum_list (map g ys)"
  by (induction ys arbitrary: a) simp_all

lemma fold_fold_add_sum_list:
  "fold (\<lambda>x. fold (\<lambda>y acc. acc + g x y) ys) xs (a::int)
     = a + sum_list (map (\<lambda>x. sum_list (map (g x) ys)) xs)"
  by (induction xs arbitrary: a) (simp_all add: fold_add_sum_list)

lemma fold_center:
  "fold (\<lambda>y acc. if P y then acc + c else acc) ys (a::int)
     = a + c * int (length (filter P ys))"
  by (induction ys arbitrary: a) (simp_all add: algebra_simps)

lemma count_filter_sum:
  "int (length (filter (\<lambda>c. f c = s) w)) = sum_list (map (\<lambda>c. sideCount s (f c)) w)"
  by (induction w) (simp_all add: sideCount_def)

lemma count_filter_empty_sum:
  "int (length (filter (\<lambda>c. f c = EMPTY) w)) = sum_list (map (\<lambda>c. emptyCount (f c)) w)"
  by (induction w) (simp_all add: emptyCount_def)

lemma windowValue_sums:
  "windowValue b s w =
     tableValue (sum_list (map (\<lambda>c. emptyCount (sq b (fst c) (snd c))) w))
       (sum_list (map (\<lambda>c. sideCount s (sq b (fst c) (snd c))) w))"
  unfolding windowValue_def count_filter_empty_sum count_filter_sum ..

lemma getScore_sums:
  assumes "squareType p \<noteq> EMPTY"
  shows "getScore b p =
    4 * int (length (filter (\<lambda>y. sq b 3 y = squareType p) (rev [0..rows - 1])))
    + sum_list (map (\<lambda>x. sum_list (map (\<lambda>y.
          tableValue
            (emptyCount (sq b x y) + emptyCount (sq b x (y - 1)) + emptyCount (sq b x (y - 2))
               + emptyCount (sq b x (y - 3)))
            (sideCount (squareType p) (sq b x y) + sideCount (squareType p) (sq b x (y - 1))
               + sideCount (squareType p) (sq b x (y - 2))
               + sideCount (squareType p) (sq b x (y - 3))))
        (rev [3..rows - 1]))) [0..cols - 1])
    + sum_list (map (\<lambda>y. sum_list (map (\<lambda>x.
          tableValue
            (emptyCount (sq b x y) + emptyCount (sq b (x + 1) y) + emptyCount (sq b (x + 2) y)
               + emptyCount (sq b (x + 3) y))
            (sideCount (squareType p) (sq b x y) + sideCount (squareType p) (sq b (x + 1) y)
               + sideCount (squareType p) (sq b (x + 2) y)
               + sideCount (squareType p) (sq b (x + 3) y)))
        [0..cols - 4])) (rev [0..rows - 1]))
    + sum_list (map (\<lambda>x. sum_list (map (\<lambda>y.
          tableValue
            (emptyCount (sq b x y) + emptyCount (sq b (x + 1) (y - 1))
               + emptyCount (sq b (x + 2) (y - 2)) + emptyCount (sq b (x + 3) (y - 3)))
            (sideCount (squareType p) (sq b x y) + sideCount (squareType p) (sq b (x + 1) (y - 1))
               + sideCount (squareType p) (sq b (x + 2) (y - 2))
               + sideCount (squareType p) (sq b (x + 3) (y - 3))))
        (rev [3..rows - 1]))) [0..cols - 4])
    + sum_list (map (\<lambda>x. sum_list (map (\<lambda>y.
          tableValue
            (emptyCount (sq b x y) + emptyCount (sq b (x - 1) (y - 1))
               + emptyCount (sq b (x - 2) (y - 2)) + emptyCount (sq b (x - 3) (y - 3)))
            (sideCount (squareType p) (sq b x y) + sideCount (squareType p) (sq b (x - 1) (y - 1))
               + sideCount (squareType p) (sq b (x - 2) (y - 2))
               + sideCount (squareType p) (sq b (x - 3) (y - 3))))
        (rev [3..rows - 1]))) (rev [3..cols - 1]))"
  unfolding getScore_def Let_def fold_fold_add_sum_list fold_center windowScore_def
    countDown_window[OF assms] countUp_window[OF assms] calcScore_tableValue
  by (simp del: upto_rec_numeral)

lemma length_filter_rev: "length (filter P (rev xs)) = length (filter P xs)"
  by (simp add: rev_filter[symmetric])

lemma getScore_scoreSpec:
  assumes "squareType p \<noteq> EMPTY"
  shows "getScore b p = scoreSpec b (squareType p)"
  unfolding getScore_sums[OF assms] scoreSpec_def centerBonus_def windowValue_sums
    allWindows_def directions_def windowCells_def length_filter_rev
  by (simp add: upto_0_5 upto_0_6 upto_0_3 upto_3_5 upto_3_6 inBoard_def add.commute
      add.left_commute)

text \<open>
  Claim C6. For every board and side, \<open>getScore\<close> is the center bonus, 4 points for each
  square of the side in the center column, plus, over all runs of four in the four
  orientations, the table value of (number of empty squares, number of squares of the
  side): (0,4) gives 10000, (0,0) gives -1000, (1,3) gives 5, (1,0) gives -5, (2,2) gives
  2, (2,0) gives -2, anything else 0.
\<close>

theorem getScore_is_scoreSpec:
  assumes "squareType p \<noteq> EMPTY"
  shows "getScore b p = scoreSpec b (squareType p)"
  using assms by (rule getScore_scoreSpec)

theorem getScore_is_scoreSpec_witness:
  "squareType red_player \<noteq> EMPTY
   \<and> getScore board_red_column red_player = scoreSpec board_red_column (squareType red_player)
   \<and> scoreSpec board_red_column RED = 10000"
proof -
  have h: "squareType red_player \<noteq> EMPTY" by (simp add: red_player_def)
  have v: "scoreSpec board_red_column RED = 10000" by code_simp
  show ?thesis using h v getScore_is_scoreSpec[OF h, of board_red_column] by simp
qed

lemma wf_board_nth:
  "wf_board b \<Longrightarrow> inBoard (x, y) \<Longrightarrow> nat x < length b \<and> nat y < length (b ! nat x)"
  by (auto simp: wf_board_def inBoard_def list_all_length)

lemma sq_swapSides:
  "wf_board b \<Longrightarrow> inBoard (x, y) \<Longrightarrow> sq (swapSides b) x y = swapType (sq b x y)"
  using wf_board_nth[of b x y] by (simp add: sq_def swapSides_def)

lemma allWindows_inBoard: "w \<in> set allWindows \<Longrightarrow> c \<in> set w \<Longrightarrow> inBoard c"
  by (erule allWindows_cases) (auto simp: list_all_iff)

lemma swapType_eq_iff: "swapType c = swapType s \<longleftrightarrow> c = s"
  by (cases c; cases s) simp_all

lemma swapType_EMPTY_iff: "swapType c = EMPTY \<longleftrightarrow> c = EMPTY"
  by (cases c) simp_all

lemma windowValue_swapSides:
  assumes "wf_board b" "w \<in> set allWindows"
  shows "windowValue (swapSides b) (swapType s) w = windowValue b s w"
proof -
  have c: "sq (swapSides b) (fst c) (snd c) = swapType (sq b (fst c) (snd c))" if "c \<in> set w" for c
    using sq_swapSides[OF assms(1), of "fst c" "snd c"] allWindows_inBoard[OF assms(2) that]
    by simp
  have "filter (\<lambda>c. sq (swapSides b) (fst c) (snd c) = EMPTY) w
      = filter (\<lambda>c. sq b (fst c) (snd c) = EMPTY) w"
    by (rule filter_cong) (simp_all add: c swapType_EMPTY_iff)
  moreover have "filter (\<lambda>c. sq (swapSides b) (fst c) (snd c) = swapType s) w
      = filter (\<lambda>c. sq b (fst c) (snd c) = s) w"
    by (rule filter_cong) (simp_all add: c swapType_eq_iff)
  ultimately show ?thesis by (simp add: windowValue_def)
qed

lemma centerBonus_swapSides:
  assumes "wf_board b"
  shows "centerBonus (swapSides b) (swapType s) = centerBonus b s"
proof -
  have "filter (\<lambda>y. sq (swapSides b) 3 y = swapType s) [0..rows - 1]
      = filter (\<lambda>y. sq b 3 y = s) [0..rows - 1]"
    by (rule filter_cong)
      (simp_all add: sq_swapSides[OF assms] inBoard_def swapType_eq_iff)
  then show ?thesis by (simp add: centerBonus_def)
qed

lemma scoreSpec_swapSides:
  assumes "wf_board b"
  shows "scoreSpec (swapSides b) (swapType s) = scoreSpec b s"
proof -
  have m: "sum_list (map (windowValue (swapSides b) (swapType s)) allWindows)
      = sum_list (map (windowValue b s) allWindows)"
    by (rule arg_cong[where f = sum_list], rule map_cong[OF refl],
        rule windowValue_swapSides[OF assms])
  show ?thesis unfolding scoreSpec_def m centerBonus_swapSides[OF assms] ..
qed

text \<open>
  Claim C7. For every board \<open>b\<close> and the two sides, the score of \<open>b\<close> for the side \<open>X\<close>
  is the score, for the other side \<open>Y\<close>, of the board that has every \<open>X\<close> square
  replaced by \<open>Y\<close> and every \<open>Y\<close> square by \<open>X\<close>.
\<close>

theorem getScore_side_swap:
  assumes "wf_board b" "squareType pX \<noteq> EMPTY" "squareType pY = swapType (squareType pX)"
  shows "getScore b pX = getScore (swapSides b) pY"
proof -
  have "squareType pY \<noteq> EMPTY" using assms(2,3) by (simp add: swapType_EMPTY_iff)
  then show ?thesis
    using assms by (simp add: getScore_scoreSpec scoreSpec_swapSides)
qed

theorem getScore_side_swap_witness:
  "wf_board board_red_column \<and> squareType red_player \<noteq> EMPTY
   \<and> squareType blue_player = swapType (squareType red_player)
   \<and> getScore board_red_column red_player = getScore (swapSides board_red_column) blue_player"
proof -
  have w: "wf_board board_red_column" by code_simp
  have x: "squareType red_player \<noteq> EMPTY" by (simp add: red_player_def)
  have y: "squareType blue_player = swapType (squareType red_player)"
    by (simp add: red_player_def blue_player_def)
  show ?thesis using w x y getScore_side_swap[OF w x y] by simp
qed

lemma nth_upto_0: "0 \<le> x \<Longrightarrow> x \<le> j \<Longrightarrow> [0..j] ! nat x = x"
  using nth_upto[of 0 "nat x" j] by simp

lemma length_copy: "length (copy b) = 7"
  by (simp add: copy_def)

lemma copy_nth:
  "0 \<le> x \<Longrightarrow> x \<le> 6 \<Longrightarrow>
     copy b ! nat x = map (\<lambda>y. if \<not> isEmpty (sq b x y) then sq b x y else EMPTY) [0..5]"
  by (simp add: copy_def nth_upto_0)

lemma sq_copy: "0 \<le> x \<Longrightarrow> x \<le> 6 \<Longrightarrow> 0 \<le> y \<Longrightarrow> y \<le> 5 \<Longrightarrow> sq (copy b) x y = sq b x y"
  by (simp add: sq_def[of "copy b"] copy_nth nth_upto_0 isEmpty_def)

lemma wf_board_copy: "wf_board (copy b)"
  by (simp add: wf_board_def copy_def list_all_iff)

lemma hasFreeSquare_copy: "hasFreeSquare (copy b) col = hasFreeSquare b col"
proof (cases "0 \<le> col \<and> col \<le> 6")
  case True
  then have "list_ex (\<lambda>y. isEmpty (sq (copy b) col y)) [0..rows - 1]
      = list_ex (\<lambda>y. isEmpty (sq b col y)) [0..rows - 1]"
    by (auto simp: list_ex_iff sq_copy)
  then show ?thesis by (simp add: hasFreeSquare_def)
next
  case False
  then show ?thesis by (auto simp: hasFreeSquare_def)
qed

lemma getFree_copy: "getFree (copy b) = getFree b"
  by (simp add: getFree_def hasFreeSquare_copy)

lemma getFree_iff: "pos \<in> set (getFree b) \<longleftrightarrow> hasFreeSquare b pos = Inr True"
  by (auto simp: getFree_def hasFreeSquare_def)

lemma getFirstFreeSquarePos_total:
  "hasFreeSquare b col = Inr True \<Longrightarrow> \<exists>y. getFirstFreeSquarePos b col = Inr y"
  by (auto simp: getFirstFreeSquarePos_def hasFreeSquare_iff find_rev_upto_None isEmpty_def
      split: option.splits)

lemma dropSquare_copy_ok:
  assumes "t \<noteq> EMPTY" "pos \<in> set (getFree b)"
  shows "\<exists>c. dropSquare (copy b) pos t = Inr c"
proof -
  from assms(2) have h: "hasFreeSquare (copy b) pos = Inr True"
    by (simp add: getFree_iff hasFreeSquare_copy)
  then have r: "0 \<le> pos" "pos < 7" by (auto simp: hasFreeSquare_iff)
  from getFirstFreeSquarePos_total[OF h]
  obtain y where y: "getFirstFreeSquarePos (copy b) pos = Inr y" by blast
  then have yr: "0 \<le> y" "y \<le> 5" "sq (copy b) pos y = EMPTY"
    by (auto simp: getFirstFreeSquarePos_Inr_iff)
  have "nat pos < length (copy b)" using r by (simp add: length_copy)
  moreover have "nat y < length (copy b ! nat pos)" using r yr by (simp add: copy_nth)
  moreover have "t = RED \<or> t = BLUE" using assms(1) by (cases t) auto
  ultimately have "\<exists>c. setSquare (copy b) pos y t = Inr c"
    using r yr by (simp add: setSquare_Inr_iff)
  with y show ?thesis by (simp add: dropSquare_def)
qed

lemma dropSquare_copy_childBoard:
  "t \<noteq> EMPTY \<Longrightarrow> pos \<in> set (getFree b) \<Longrightarrow> dropSquare (copy b) pos t = Inr (childBoard b pos t)"
  using dropSquare_copy_ok[of t pos b] by (auto simp: childBoard_def)

lemma getFree_nonempty: "\<not> isOver b \<Longrightarrow> getFree b \<noteq> []"
  by (auto simp: isOver_def)

lemma num_less_simps [simp]:
  "Num a < Num b \<longleftrightarrow> a < b"
  "NegInf < Num a" "Num a < PosInf" "NegInf < PosInf"
  "\<not> x < NegInf" "\<not> PosInf < x"
  "x \<le> PosInf" "PosInf \<le> x \<longleftrightarrow> x = PosInf" "x \<le> NegInf \<longleftrightarrow> x = NegInf"
  by (cases x; auto simp: less_num_def)+

lemma max_NegInf [simp]: "max NegInf x = x" "max x NegInf = x"
  by (simp_all add: max_def)

lemma min_PosInf [simp]: "min PosInf x = x" "min x PosInf = x"
  by (simp_all add: min_def)

lemma approx_refl: "approx alpha beta m m"
  by (simp add: approx_def)

lemma approx_full: "approx NegInf PosInf m v \<Longrightarrow> v = m"
  by (cases v; cases m) (auto simp: approx_def)

lemma approx_finite: "alpha < beta \<Longrightarrow> approx alpha beta (Num i) v \<Longrightarrow> \<exists>j. v = Num j"
  by (cases v) (auto simp: approx_def)

lemma maxOf_finite:
  "xs \<noteq> [] \<Longrightarrow> \<forall>x\<in>set xs. \<exists>i. x = Num i \<Longrightarrow> \<exists>i. maxOf xs = Num i"
proof (induction xs)
  case Nil
  then show ?case by simp
next
  case (Cons x xs)
  then obtain i where x: "x = Num i" by auto
  show ?case
  proof (cases "xs = []")
    case True
    then show ?thesis using x by simp
  next
    case False
    with Cons obtain j where "maxOf xs = Num j" by auto
    then show ?thesis using x by (simp add: max_def)
  qed
qed

lemma minOf_finite:
  "xs \<noteq> [] \<Longrightarrow> \<forall>x\<in>set xs. \<exists>i. x = Num i \<Longrightarrow> \<exists>i. minOf xs = Num i"
proof (induction xs)
  case Nil
  then show ?case by simp
next
  case (Cons x xs)
  then obtain i where x: "x = Num i" by auto
  show ?case
  proof (cases "xs = []")
    case True
    then show ?thesis using x by simp
  next
    case False
    with Cons obtain j where "minOf xs = Num j" by auto
    then show ?thesis using x by (simp add: min_def)
  qed
qed

lemma bruteForce_finite: "\<exists>i. bruteForce rm b d maximizing = Num i"
proof (induction d arbitrary: b maximizing)
  case 0
  then show ?case by simp
next
  case (Suc d)
  show ?case
  proof (cases "isOver b")
    case True
    then show ?thesis by simp
  next
    case False
    then have ne: "getFree b \<noteq> []" by (rule getFree_nonempty)
    show ?thesis
    proof (cases maximizing)
      case True
      have "\<exists>i. maxOf (map (\<lambda>pos. bruteForce rm (childBoard b pos (squareType (currentPlayer rm))) d False)
                 (getFree b)) = Num i"
        using ne Suc by (intro maxOf_finite) auto
      then show ?thesis using True False by simp
    next
      case f: False
      have "\<exists>i. minOf (map (\<lambda>pos. bruteForce rm (childBoard b pos (squareType (opponentPlayer rm))) d True)
                 (getFree b)) = Num i"
        using ne Suc by (intro minOf_finite) auto
      then show ?thesis using f False by simp
    qed
  qed
qed

lemma maxLoop_approx:
  assumes side: "squareType (currentPlayer rm) \<noteq> EMPTY"
    and child: "\<And>c al be. al < be \<Longrightarrow>
        \<exists>v. minimax rm c d al be False = Inr v \<and> approx al be (bruteForce rm c d False) v"
  shows "set ps \<subseteq> set (getFree b) \<Longrightarrow> alpha < beta \<Longrightarrow> alpha = max alpha0 mx \<Longrightarrow>
     approx alpha0 beta T mx \<Longrightarrow>
     \<exists>r bp. maxLoop rm b d alpha beta mx bestPos ps = Inr (r, bp)
       \<and> approx alpha0 beta
           (max T (maxOf (map (\<lambda>pos. bruteForce rm
               (childBoard b pos (squareType (currentPlayer rm))) d False) ps))) r"
proof (induction ps arbitrary: alpha mx bestPos T)
  case Nil
  then show ?case by simp
next
  case (Cons pos rest)
  let ?c = "childBoard b pos (squareType (currentPlayer rm))"
  let ?m = "bruteForce rm ?c d False"
  let ?M = "maxOf (map (\<lambda>pos. bruteForce rm
               (childBoard b pos (squareType (currentPlayer rm))) d False) rest)"
  have drop: "dropSquare (copy b) pos (squareType (currentPlayer rm)) = Inr ?c"
    using Cons.prems(1) side by (intro dropSquare_copy_childBoard) auto
  from child[OF Cons.prems(2)] obtain v where v: "minimax rm ?c d alpha beta False = Inr v"
    and av: "approx alpha beta ?m v" by blast
  show ?case
  proof (cases "beta \<le> max alpha v")
    case True
    then have bv: "beta \<le> v" using Cons.prems(2) by (auto simp: max_def split: if_splits)
    then have "v \<le> ?m" using av by (simp add: approx_def)
    moreover have "mx < v" using bv Cons.prems(2,3) by (auto simp: max_def split: if_splits)
    ultimately have "approx alpha0 beta (max T (max ?m ?M)) v"
      using bv Cons.prems(2,3) by (auto simp: approx_def max_def split: if_splits)
    then show ?thesis using True drop v \<open>mx < v\<close> by (simp add: Let_def)
  next
    case False
    let ?mx' = "if mx < v then v else mx"
    have a': "max alpha v < beta" using False by (simp only: not_le)
    have e: "max alpha v = max alpha0 ?mx'"
      using Cons.prems(3) by (auto simp: max_def)
    have inv: "approx alpha0 beta (max T ?m) ?mx'"
      using av Cons.prems(2,3,4) a' by (auto simp: approx_def max_def split: if_splits)
    from Cons.IH[OF _ a' e inv, of "if mx < v then Some pos else bestPos"] Cons.prems(1)
    obtain r bp where
      r: "maxLoop rm b d (max alpha v) beta ?mx' (if mx < v then Some pos else bestPos) rest
            = Inr (r, bp)"
      and ar: "approx alpha0 beta (max (max T ?m) ?M) r"
      by auto
    have "max (max T ?m) ?M = max T (max ?m ?M)" by (simp add: max.assoc)
    then show ?thesis using False drop v r ar by (simp add: Let_def)
  qed
qed

lemma minLoop_approx:
  assumes side: "squareType (opponentPlayer rm) \<noteq> EMPTY"
    and child: "\<And>c al be. al < be \<Longrightarrow>
        \<exists>v. minimax rm c d al be True = Inr v \<and> approx al be (bruteForce rm c d True) v"
  shows "set ps \<subseteq> set (getFree b) \<Longrightarrow> alpha < beta \<Longrightarrow> beta = min beta0 mn \<Longrightarrow>
     approx alpha beta0 T mn \<Longrightarrow>
     \<exists>r. minLoop rm b d alpha beta mn ps = Inr r
       \<and> approx alpha beta0
           (min T (minOf (map (\<lambda>pos. bruteForce rm
               (childBoard b pos (squareType (opponentPlayer rm))) d True) ps))) r"
proof (induction ps arbitrary: beta mn T)
  case Nil
  then show ?case by simp
next
  case (Cons pos rest)
  let ?c = "childBoard b pos (squareType (opponentPlayer rm))"
  let ?m = "bruteForce rm ?c d True"
  let ?M = "minOf (map (\<lambda>pos. bruteForce rm
               (childBoard b pos (squareType (opponentPlayer rm))) d True) rest)"
  have drop: "dropSquare (copy b) pos (squareType (opponentPlayer rm)) = Inr ?c"
    using Cons.prems(1) side by (intro dropSquare_copy_childBoard) auto
  from child[OF Cons.prems(2)] obtain v where v: "minimax rm ?c d alpha beta True = Inr v"
    and av: "approx alpha beta ?m v" by blast
  show ?case
  proof (cases "min beta v \<le> alpha")
    case True
    then have va: "v \<le> alpha" using Cons.prems(2) by (auto simp: min_def split: if_splits)
    then have "?m \<le> v" using av by (simp add: approx_def)
    moreover have "v < mn" using va Cons.prems(2,3) by (auto simp: min_def split: if_splits)
    ultimately have "approx alpha beta0 (min T (min ?m ?M)) v"
      using va Cons.prems(2,3) by (auto simp: approx_def min_def split: if_splits)
    moreover have "min v mn = v" using \<open>v < mn\<close> by (auto simp: min_def)
    ultimately show ?thesis using True drop v by (simp add: Let_def)
  next
    case False
    have b': "alpha < min beta v" using False by (simp only: not_le)
    have e: "min beta v = min beta0 (min v mn)"
      using Cons.prems(3) by (auto simp: min_def)
    have inv: "approx alpha beta0 (min T ?m) (min v mn)"
      using av Cons.prems(2,3,4) b' by (auto simp: approx_def min_def split: if_splits)
    from Cons.IH[OF _ b' e inv] Cons.prems(1)
    obtain r where r: "minLoop rm b d alpha (min beta v) (min v mn) rest = Inr r"
      and ar: "approx alpha beta0 (min (min T ?m) ?M) r"
      by auto
    have "min (min T ?m) ?M = min T (min ?m ?M)" by (simp add: min.assoc)
    then show ?thesis using False drop v r ar by (simp add: Let_def)
  qed
qed

lemma minimax_approx:
  assumes sides: "squareType (currentPlayer rm) \<noteq> EMPTY" "squareType (opponentPlayer rm) \<noteq> EMPTY"
  shows "alpha < beta \<Longrightarrow>
     \<exists>v. minimax rm b d alpha beta isMaximizer = Inr v
        \<and> approx alpha beta (bruteForce rm b d isMaximizer) v"
proof (induction d arbitrary: b alpha beta isMaximizer)
  case 0
  then show ?case by (simp add: approx_refl)
next
  case (Suc d)
  show ?case
  proof (cases "isOver b")
    case True
    then show ?thesis by (simp add: approx_refl)
  next
    case False
    show ?thesis
    proof (cases isMaximizer)
      case True
      have "\<exists>r bp. maxLoop rm b d alpha beta NegInf None (getFree b) = Inr (r, bp)
          \<and> approx alpha beta (max NegInf (maxOf (map (\<lambda>pos. bruteForce rm
               (childBoard b pos (squareType (currentPlayer rm))) d False) (getFree b)))) r"
        using Suc.prems
        by (intro maxLoop_approx[OF sides(1) Suc.IH]) (auto simp: approx_def)
      then show ?thesis using True False by auto
    next
      case f: False
      have "\<exists>r. minLoop rm b d alpha beta PosInf (getFree b) = Inr r
          \<and> approx alpha beta (min PosInf (minOf (map (\<lambda>pos. bruteForce rm
               (childBoard b pos (squareType (opponentPlayer rm))) d True) (getFree b)))) r"
        using Suc.prems
        by (intro minLoop_approx[OF sides(2) Suc.IH]) (auto simp: approx_def)
      then show ?thesis using f False by auto
    qed
  qed
qed

lemma minimax_bruteForce:
  assumes "squareType (currentPlayer rm) \<noteq> EMPTY" "squareType (opponentPlayer rm) \<noteq> EMPTY"
  shows "minimax rm b d NegInf PosInf isMaximizer = Inr (bruteForce rm b d isMaximizer)"
  using minimax_approx[OF assms, of NegInf PosInf b d isMaximizer]
  by (auto dest: approx_full)

lemma maxOf_in_set: "xs \<noteq> [] \<Longrightarrow> maxOf xs \<in> set xs"
proof (induction xs)
  case Nil
  then show ?case by simp
next
  case (Cons x xs)
  then show ?case by (cases "xs = []") (auto simp: max_def)
qed

lemma maxLoop_root:
  assumes side: "squareType (currentPlayer rm) \<noteq> EMPTY"
    and child: "\<And>c al be. al < be \<Longrightarrow>
        \<exists>v. minimax rm c d al be False = Inr v \<and> approx al be (bruteForce rm c d False) v"
  shows "set ps \<subseteq> set (getFree b) \<Longrightarrow> mx \<noteq> PosInf \<Longrightarrow>
     maxLoop rm b d mx PosInf mx bestPos ps =
       Inr (max mx (maxOf (map (\<lambda>pos. bruteForce rm
               (childBoard b pos (squareType (currentPlayer rm))) d False) ps)),
            if mx < maxOf (map (\<lambda>pos. bruteForce rm
               (childBoard b pos (squareType (currentPlayer rm))) d False) ps)
            then find (\<lambda>pos. bruteForce rm
                   (childBoard b pos (squareType (currentPlayer rm))) d False
                 = maxOf (map (\<lambda>pos. bruteForce rm
                     (childBoard b pos (squareType (currentPlayer rm))) d False) ps)) ps
            else bestPos)"
proof (induction ps arbitrary: mx bestPos)
  case Nil
  then show ?case by simp
next
  case (Cons pos rest)
  let ?val = "\<lambda>pos. bruteForce rm (childBoard b pos (squareType (currentPlayer rm))) d False"
  let ?M = "maxOf (map ?val rest)"
  have drop: "dropSquare (copy b) pos (squareType (currentPlayer rm))
      = Inr (childBoard b pos (squareType (currentPlayer rm)))"
    using Cons.prems(1) side by (intro dropSquare_copy_childBoard) auto
  have lt: "mx < PosInf" using Cons.prems(2) by (cases mx) auto
  from child[OF lt] obtain v
    where v: "minimax rm (childBoard b pos (squareType (currentPlayer rm))) d mx PosInf False = Inr v"
      and av: "approx mx PosInf (?val pos) v" by blast
  obtain i where i: "?val pos = Num i" using bruteForce_finite by blast
  from approx_finite[OF lt av[unfolded i]] obtain j where j: "v = Num j" by blast
  have nb: "\<not> PosInf \<le> max mx v" using j Cons.prems(2) by (cases mx) (auto simp: max_def)
  have rest: "set rest \<subseteq> set (getFree b)" using Cons.prems(1) by simp
  show ?case
  proof (cases "mx < v")
    case True
    then have e: "v = ?val pos" using av j by (auto simp: approx_def)
    have m: "max mx v = v" using True by (auto simp: max_def)
    have vf: "v \<noteq> PosInf" using j by simp
    have "maxLoop rm b d mx PosInf mx bestPos (pos # rest)
        = maxLoop rm b d v PosInf v (Some pos) rest"
      using drop v nb True m by (simp add: Let_def)
    also have "\<dots> = Inr (max v ?M, if v < ?M then find (\<lambda>p. ?val p = ?M) rest else Some pos)"
      by (rule Cons.IH[OF rest vf])
    also have "\<dots> = Inr (max mx (maxOf (map ?val (pos # rest))),
        if mx < maxOf (map ?val (pos # rest))
        then find (\<lambda>p. ?val p = maxOf (map ?val (pos # rest))) (pos # rest) else bestPos)"
    proof (cases "v < ?M")
      case lt: True
      then have "max v ?M = ?M" "mx < ?M" "v \<noteq> ?M" using True by (auto simp: max_def)
      then show ?thesis using lt e by simp
    next
      case ge: False
      then have "max v ?M = v" by (auto simp: max_def)
      then show ?thesis using ge True e by simp
    qed
    finally show ?thesis .
  next
    case False
    then have le: "?val pos \<le> v" "v \<le> mx" using av by (auto simp: approx_def)
    have m: "max mx v = mx" using le by (auto simp: max_def)
    have "maxLoop rm b d mx PosInf mx bestPos (pos # rest)
        = maxLoop rm b d mx PosInf mx bestPos rest"
      using drop v nb False m by (simp add: Let_def)
    also have "\<dots> = Inr (max mx ?M, if mx < ?M then find (\<lambda>p. ?val p = ?M) rest else bestPos)"
      by (rule Cons.IH[OF rest Cons.prems(2)])
    also have "\<dots> = Inr (max mx (maxOf (map ?val (pos # rest))),
        if mx < maxOf (map ?val (pos # rest))
        then find (\<lambda>p. ?val p = maxOf (map ?val (pos # rest))) (pos # rest) else bestPos)"
    proof (cases "mx < ?M")
      case lt: True
      then have "?val pos < ?M" using le by auto
      then have "max (?val pos) ?M = ?M" "?val pos \<noteq> ?M" by (auto simp: max_def)
      then show ?thesis using lt by simp
    next
      case ge: False
      then have "?M \<le> mx" by (simp only: not_less)
      then have "max (?val pos) ?M \<le> mx" using le by auto
      then have "\<not> mx < max (?val pos) ?M" "max mx (max (?val pos) ?M) = mx" "max mx ?M = mx"
        using \<open>?M \<le> mx\<close> by (auto simp: max_def)
      then show ?thesis using ge by simp
    qed
    finally show ?thesis .
  qed
qed

lemma minimaxFirst_bruteForceColumn:
  assumes sides: "squareType (currentPlayer rm) \<noteq> EMPTY" "squareType (opponentPlayer rm) \<noteq> EMPTY"
    and d: "depth \<noteq> 0" and o: "\<not> isOver b"
  shows "minimaxFirst rm b depth NegInf PosInf True
           = Inr (map_option Num (bruteForceColumn rm b depth))"
    and "\<exists>pos\<in>set (getFree b). bruteForceColumn rm b depth = Some pos"
proof -
  from d obtain d' where depth: "depth = Suc d'" by (cases depth) auto
  let ?val = "\<lambda>pos. bruteForce rm (childBoard b pos (squareType (currentPlayer rm))) d' False"
  let ?M = "maxOf (map ?val (getFree b))"
  have ne: "getFree b \<noteq> []" using o by (rule getFree_nonempty)
  have M: "bruteForce rm b depth True = ?M" using o by (simp add: depth)
  obtain i where i: "?M = Num i" using bruteForce_finite[of rm b depth True] M by auto
  have loop: "maxLoop rm b d' NegInf PosInf NegInf None (getFree b)
      = Inr (max NegInf ?M, if NegInf < ?M then find (\<lambda>p. ?val p = ?M) (getFree b) else None)"
    by (rule maxLoop_root[OF sides(1) minimax_approx[OF sides]]) simp_all
  have col: "bruteForceColumn rm b depth = find (\<lambda>p. ?val p = ?M) (getFree b)"
    unfolding bruteForceColumn_def M by (simp add: depth)
  show "minimaxFirst rm b depth NegInf PosInf True
           = Inr (map_option Num (bruteForceColumn rm b depth))"
    unfolding col using o loop i by (simp add: minimaxFirst_def depth)
  have "?M \<in> set (map ?val (getFree b))" using ne by (intro maxOf_in_set) simp
  then obtain p where p: "p \<in> set (getFree b)" "?val p = ?M" by auto
  then have "find (\<lambda>p. ?val p = ?M) (getFree b) \<noteq> None" by (auto simp: find_None_iff)
  then obtain q where q: "find (\<lambda>p. ?val p = ?M) (getFree b) = Some q" by auto
  then have "q \<in> set (getFree b)" by (auto simp: find_Some_iff)
  with q col show "\<exists>pos\<in>set (getFree b). bruteForceColumn rm b depth = Some pos" by simp
qed

text \<open>
  Claim C3. For every board, every depth and every pair of sides, the alpha-beta search
  started with the window \<open>(-\<infinity>, +\<infinity>)\<close> returns what brute-force minimax without pruning
  returns at the same depth: the same value, and at the entry point (a depth above 0 on a
  board that is not over) the same column, the lowest-indexed free column whose value is
  the maximum.
\<close>

theorem alpha_beta_is_brute_force:
  assumes "squareType (currentPlayer rm) \<noteq> EMPTY" "squareType (opponentPlayer rm) \<noteq> EMPTY"
  shows "minimax rm b depth NegInf PosInf isMaximizer = Inr (bruteForce rm b depth isMaximizer)
       \<and> (depth \<noteq> 0 \<and> \<not> isOver b \<longrightarrow>
            minimaxFirst rm b depth NegInf PosInf True
              = Inr (map_option Num (bruteForceColumn rm b depth)))"
  using minimax_bruteForce[OF assms] minimaxFirst_bruteForceColumn(1)[OF assms]
  by simp

theorem alpha_beta_is_brute_force_witness:
  "squareType (currentPlayer room_late) \<noteq> EMPTY
   \<and> squareType (opponentPlayer room_late) \<noteq> EMPTY
   \<and> (2::nat) \<noteq> 0 \<and> \<not> isOver board_late
   \<and> bruteForce room_late board_late 2 True = Num 10000
   \<and> bruteForceColumn room_late board_late 2 = Some 2
   \<and> minimax room_late board_late 2 NegInf PosInf True = Inr (Num 10000)
   \<and> minimaxFirst room_late board_late 2 NegInf PosInf True = Inr (Some (Num 2))"
proof -
  have c: "squareType (currentPlayer room_late) \<noteq> EMPTY" by code_simp
  have p: "squareType (opponentPlayer room_late) \<noteq> EMPTY" by code_simp
  have o: "\<not> isOver board_late" by code_simp
  have v: "bruteForce room_late board_late 2 True = Num 10000" by code_simp
  have k: "bruteForceColumn room_late board_late 2 = Some 2" by code_simp
  show ?thesis
    using c p o v k alpha_beta_is_brute_force[OF c p, of board_late 2 True] by simp
qed

lemma gravity_iff:
  "gravity b \<longleftrightarrow>
     (\<forall>x y y'. 0 \<le> x \<and> x \<le> 6 \<and> 0 \<le> y \<and> y < y' \<and> y' \<le> 5 \<and> sq b x y \<noteq> EMPTY
        \<longrightarrow> sq b x y' \<noteq> EMPTY)"
proof -
  have "gravity b \<longleftrightarrow>
     (\<forall>x. 0 \<le> x \<and> x \<le> 6 \<longrightarrow> (\<forall>y. 0 \<le> y \<and> y \<le> 5 \<longrightarrow>
        sq b x y = EMPTY \<or> (\<forall>y'. y + 1 \<le> y' \<and> y' \<le> 5 \<longrightarrow> sq b x y' \<noteq> EMPTY)))"
    unfolding gravity_def list_all_iff ball_upto rows_def cols_def by simp
  also have "\<dots> \<longleftrightarrow> (\<forall>x y y'. 0 \<le> x \<and> x \<le> 6 \<and> 0 \<le> y \<and> y < y' \<and> y' \<le> 5 \<and> sq b x y \<noteq> EMPTY
        \<longrightarrow> sq b x y' \<noteq> EMPTY)"
  proof -
    have e: "\<And>y y'::int. y + 1 \<le> y' \<longleftrightarrow> y < y'" by arith
    show ?thesis unfolding e by (intro iffI allI impI; elim conjE) force+
  qed
  finally show ?thesis .
qed

lemma dropSquare_sq:
  assumes "dropSquare b pos t = Inr b'"
  shows "\<exists>y. getFirstFreeSquarePos b pos = Inr y \<and> t \<noteq> EMPTY
    \<and> (\<forall>x' y'. 0 \<le> x' \<longrightarrow> 0 \<le> y' \<longrightarrow>
          sq b' x' y' = (if x' = pos \<and> y' = y then t else sq b x' y'))"
proof -
  from assms obtain y where y: "getFirstFreeSquarePos b pos = Inr y"
    and s: "setSquare b pos y t = Inr b'"
    by (auto simp: dropSquare_Inr_iff)
  from s have "t \<noteq> EMPTY" by (auto simp: setSquare_Inr_iff)
  moreover have "\<forall>x' y'. 0 \<le> x' \<longrightarrow> 0 \<le> y' \<longrightarrow>
      sq b' x' y' = (if x' = pos \<and> y' = y then t else sq b x' y')"
    using sq_setSquare[OF s] by blast
  ultimately show ?thesis using y by blast
qed

lemma dropSquare_wf_board:
  assumes "wf_board b" "dropSquare b pos t = Inr b'"
  shows "wf_board b'"
proof -
  from assms(2) obtain y where "setSquare b pos y t = Inr b'"
    by (auto simp: dropSquare_Inr_iff)
  then have b': "b' = b[nat pos := (b ! nat pos)[nat y := t]]" and r: "nat pos < length b"
    by (auto simp: setSquare_Inr_iff)
  show ?thesis
    using assms(1) r unfolding b' wf_board_def list_all_length
    by (auto simp: nth_list_update)
qed

lemma dropSquare_ok:
  assumes "wf_board b" "t \<noteq> EMPTY" "hasFreeSquare b pos = Inr True"
  shows "\<exists>b'. dropSquare b pos t = Inr b'"
proof -
  from assms(3) have r: "0 \<le> pos" "pos < 7" by (auto simp: hasFreeSquare_iff)
  from getFirstFreeSquarePos_total[OF assms(3)]
  obtain y where y: "getFirstFreeSquarePos b pos = Inr y" by blast
  then have yr: "0 \<le> y" "y \<le> 5" "sq b pos y = EMPTY"
    by (auto simp: getFirstFreeSquarePos_Inr_iff)
  have "inBoard (pos, y)" using r yr by (simp add: inBoard_def)
  from wf_board_nth[OF assms(1) this]
  have "nat pos < length b" "nat y < length (b ! nat pos)" by auto
  moreover have "t = RED \<or> t = BLUE" using assms(2) by (cases t) auto
  ultimately have "\<exists>c. setSquare b pos y t = Inr c"
    using r yr by (simp add: setSquare_Inr_iff)
  with y show ?thesis by (simp add: dropSquare_def)
qed

lemma dropSquare_gravity:
  assumes g: "gravity b" and d: "dropSquare b pos t = Inr b'"
  shows "gravity b'"
proof -
  from dropSquare_sq[OF d]
  obtain y0 where y0: "getFirstFreeSquarePos b pos = Inr y0" and t: "t \<noteq> EMPTY"
    and c: "\<And>x' y'. 0 \<le> x' \<Longrightarrow> 0 \<le> y' \<Longrightarrow>
        sq b' x' y' = (if x' = pos \<and> y' = y0 then t else sq b x' y')"
    by blast
  from y0 have below: "\<forall>z. y0 < z \<and> z \<le> 5 \<longrightarrow> sq b pos z \<noteq> EMPTY"
    by (auto simp: getFirstFreeSquarePos_Inr_iff)
  show ?thesis
    unfolding gravity_iff
  proof (intro allI impI, elim conjE)
    fix x y y' :: int
    assume a: "0 \<le> x" "x \<le> 6" "0 \<le> y" "y < y'" "y' \<le> 5" "sq b' x y \<noteq> EMPTY"
    then have y': "0 \<le> y'" by simp
    show "sq b' x y' \<noteq> EMPTY"
    proof (cases "x = pos \<and> y' = y0")
      case True
      then show ?thesis using c[OF a(1) y'] t by simp
    next
      case False
      then have e: "sq b' x y' = sq b x y'" using c[OF a(1) y'] by auto
      show ?thesis
      proof (cases "x = pos \<and> y = y0")
        case True
        then show ?thesis using e below a by auto
      next
        case False
        then have "sq b x y \<noteq> EMPTY" using c[OF a(1,3)] a(6) by auto
        then have "sq b x y' \<noteq> EMPTY" using g a unfolding gravity_iff by blast
        then show ?thesis using e by simp
      qed
    qed
  qed
qed

lemma wf_room_sides:
  assumes "wf_room rm"
  shows "squareType (currentPlayer rm) \<noteq> EMPTY" "squareType (opponentPlayer rm) \<noteq> EMPTY"
    "squareType (currentPlayer rm) \<noteq> squareType (opponentPlayer rm)"
proof -
  from assms have "currentPlayerIndex rm = 0 \<or> currentPlayerIndex rm = 1"
    by (auto simp: wf_room_def)
  then show "squareType (currentPlayer rm) \<noteq> EMPTY" "squareType (opponentPlayer rm) \<noteq> EMPTY"
    "squareType (currentPlayer rm) \<noteq> squareType (opponentPlayer rm)"
    using assms by (auto simp: wf_room_def currentPlayer_def opponentPlayer_def)
qed

lemma wf_room_swapPlayer: "wf_room rm \<Longrightarrow> wf_room (swapPlayer rm)"
  by (simp add: wf_room_def swapPlayer_def)

lemma wf_room_board: "wf_room rm \<Longrightarrow> wf_board b' \<Longrightarrow> wf_room (rm\<lparr>board := b'\<rparr>)"
  by (simp add: wf_room_def)

lemma swapPlayer_simps [simp]:
  "board (swapPlayer rm) = board rm" "players (swapPlayer rm) = players rm"
  by (simp_all add: swapPlayer_def)

lemma botPosition_cases:
  assumes sides: "squareType (currentPlayer rm) \<noteq> EMPTY" "squareType (opponentPlayer rm) \<noteq> EMPTY"
    and o: "\<not> isOver (board rm)"
  shows "(ptype (currentPlayer rm) = HUMAN \<and> botPosition rm r = None)
       \<or> (ptype (currentPlayer rm) \<noteq> HUMAN
           \<and> (\<exists>p\<in>set (getFree (board rm)). botPosition rm r = Some (Inr (Some (Num p)))))"
proof -
  have ne: "getFree (board rm) \<noteq> []" using o by (rule getFree_nonempty)
  have mm: "\<exists>p\<in>set (getFree (board rm)).
      minimaxFirst rm (board rm) depth NegInf PosInf True = Inr (Some (Num p))"
    if "depth \<noteq> 0" for depth
    using minimaxFirst_bruteForceColumn[OF sides that o] by auto
  show ?thesis
  proof (cases "ptype (currentPlayer rm)")
    case HUMAN
    then show ?thesis by (simp add: botPosition_def)
  next
    case EASY_BOT
    then show ?thesis using mm[of 1] by (simp add: botPosition_def)
  next
    case NORMAL_BOT
    then show ?thesis using mm[of 3] by (simp add: botPosition_def)
  next
    case STUPID_BOT
    then show ?thesis using ne by (cases "getFree (board rm)") (simp_all add: botPosition_def)
  next
    case RANDOM_BOT
    have "getFree (board rm) ! (r mod length (getFree (board rm))) \<in> set (getFree (board rm))"
      using ne by (intro nth_mem) simp
    then show ?thesis using RANDOM_BOT ne by (simp add: botPosition_def Let_def)
  next
    case CHEAT_BOT
    then show ?thesis using mm[of 8] by (simp add: botPosition_def)
  qed
qed

lemma chained_simps [simp]:
  "fst (chained r) = fst r"
  "chained (rm', Resolved) = (rm', Resolved)"
  "chained (rm', Thrown e) = (rm', Rejected e)"
  "chained (rm', Rejected e) = (rm', Resolved)"
  by (cases r; cases "snd r"; simp add: chained_def)+

lemma play_unfold:
  assumes "dropSquare (board rm) pos (squareType (currentPlayer rm)) = Inr b'"
  shows "play rm pos rnd =
     (if \<not> isOver b' then
        (case botPosition (swapPlayer (rm\<lparr>board := b'\<rparr>)) (case rnd of [] \<Rightarrow> 0 | r # _ \<Rightarrow> r) of
           None \<Rightarrow> (swapPlayer (rm\<lparr>board := b'\<rparr>), Resolved)
         | Some (Inl e) \<Rightarrow> (swapPlayer (rm\<lparr>board := b'\<rparr>), Rejected e)
         | Some (Inr None) \<Rightarrow> (swapPlayer (rm\<lparr>board := b'\<rparr>), Rejected InvalidColumn)
         | Some (Inr (Some NegInf)) \<Rightarrow> (swapPlayer (rm\<lparr>board := b'\<rparr>), Rejected InvalidColumn)
         | Some (Inr (Some PosInf)) \<Rightarrow> (swapPlayer (rm\<lparr>board := b'\<rparr>), Rejected InvalidColumn)
         | Some (Inr (Some (Num p))) \<Rightarrow>
             chained (play (swapPlayer (rm\<lparr>board := b'\<rparr>)) p (tl rnd)))
      else (rm\<lparr>board := b'\<rparr>, Resolved))"
proof -
  from assms obtain y where "getFirstFreeSquarePos (board rm) pos = Inr y"
    by (auto simp: dropSquare_Inr_iff)
  then have "0 \<le> pos" "pos < 7" "hasFreeSquare (board rm) pos = Inr True"
    by (auto simp: getFirstFreeSquarePos_Inr_iff hasFreeSquare_iff)
  then show ?thesis using assms by (subst play.simps) simp
qed

lemma play_resolved:
  "wf_room rm \<Longrightarrow> hasFreeSquare (board rm) pos = Inr True \<Longrightarrow>
     \<exists>rm'. play rm pos rnd = (rm', Resolved) \<and> wf_room rm'"
proof (induction "empties (board rm)" arbitrary: rm pos rnd rule: less_induct)
  case less
  from less.prems(1) have wb: "wf_board (board rm)" by (simp add: wf_room_def)
  from dropSquare_ok[OF wb wf_room_sides(1)[OF less.prems(1)] less.prems(2)]
  obtain b' where d: "dropSquare (board rm) pos (squareType (currentPlayer rm)) = Inr b'"
    by blast
  let ?rm1 = "rm\<lparr>board := b'\<rparr>"
  let ?rm2 = "swapPlayer ?rm1"
  have w1: "wf_room ?rm1"
    using less.prems(1) dropSquare_wf_board[OF wb d] by (rule wf_room_board)
  then have w2: "wf_room ?rm2" by (rule wf_room_swapPlayer)
  show ?case
  proof (cases "isOver b'")
    case True
    then show ?thesis using w1 by (simp add: play_unfold[OF d])
  next
    case False
    then have o2: "\<not> isOver (board ?rm2)" by simp
    from botPosition_cases[OF wf_room_sides(1,2)[OF w2] o2,
        where r = "case rnd of [] \<Rightarrow> 0 | r # _ \<Rightarrow> r"]
    show ?thesis
    proof (elim disjE conjE bexE)
      assume "botPosition ?rm2 (case rnd of [] \<Rightarrow> 0 | r # _ \<Rightarrow> r) = None"
      then show ?thesis using False w2 by (simp add: play_unfold[OF d])
    next
      fix p
      assume p: "p \<in> set (getFree (board ?rm2))"
        and bp: "botPosition ?rm2 (case rnd of [] \<Rightarrow> 0 | r # _ \<Rightarrow> r) = Some (Inr (Some (Num p)))"
      have "empties (board ?rm2) < empties (board rm)"
        using dropSquare_empties[OF d] by simp
      moreover have "hasFreeSquare (board ?rm2) p = Inr True" using p by (simp add: getFree_iff)
      ultimately obtain rm' where "play ?rm2 p (tl rnd) = (rm', Resolved)" "wf_room rm'"
        using less.hyps[OF _ w2] by blast
      then show ?thesis using False bp by (simp add: play_unfold[OF d])
    qed
  qed
qed

lemma play_failed_drop:
  "dropSquare (board rm) pos (squareType (currentPlayer rm)) = Inl e \<Longrightarrow>
     fst (play rm pos rnd) = rm"
  by (subst play.simps) (simp split: sum.splits)

lemma play_unfold_fst:
  assumes "dropSquare (board rm) pos (squareType (currentPlayer rm)) = Inr b'"
  shows "fst (play rm pos rnd) =
     (if isOver b' then rm\<lparr>board := b'\<rparr>
      else case botPosition (swapPlayer (rm\<lparr>board := b'\<rparr>)) (case rnd of [] \<Rightarrow> 0 | r # _ \<Rightarrow> r) of
             Some (Inr (Some (Num p))) \<Rightarrow> fst (play (swapPlayer (rm\<lparr>board := b'\<rparr>)) p (tl rnd))
           | _ \<Rightarrow> swapPlayer (rm\<lparr>board := b'\<rparr>))"
  by (simp add: play_unfold[OF assms] split: option.splits sum.splits num.splits)

lemma play_preserves:
  "play rm pos rnd = (rm', out) \<Longrightarrow>
     players rm' = players rm
     \<and> (gravity (board rm) \<longrightarrow> gravity (board rm'))
     \<and> (\<forall>x y. 0 \<le> x \<and> 0 \<le> y \<and> sq (board rm) x y \<noteq> EMPTY
           \<longrightarrow> sq (board rm') x y = sq (board rm) x y)"
proof (induction "empties (board rm)" arbitrary: rm pos rnd rm' out rule: less_induct)
  case less
  from less.prems have f: "fst (play rm pos rnd) = rm'" by simp
  show ?case
  proof (cases "dropSquare (board rm) pos (squareType (currentPlayer rm))")
    case (Inl e)
    then have "rm' = rm" using f play_failed_drop by simp
    then show ?thesis by simp
  next
    case (Inr b')
    let ?rm1 = "rm\<lparr>board := b'\<rparr>"
    let ?rm2 = "swapPlayer ?rm1"
    from dropSquare_sq[OF Inr]
    obtain y0 where c: "\<And>x y. 0 \<le> x \<Longrightarrow> 0 \<le> y \<Longrightarrow>
        sq b' x y = (if x = pos \<and> y = y0 then squareType (currentPlayer rm) else sq (board rm) x y)"
      and y0: "getFirstFreeSquarePos (board rm) pos = Inr y0"
      by blast
    from y0 have e0: "sq (board rm) pos y0 = EMPTY" by (simp add: getFirstFreeSquarePos_Inr_iff)
    have keep: "sq b' x y = sq (board rm) x y"
      if "0 \<le> x" "0 \<le> y" "sq (board rm) x y \<noteq> EMPTY" for x y
      using c[OF that(1,2)] that(3) e0 by auto
    have grav: "gravity (board rm) \<longrightarrow> gravity b'"
      using dropSquare_gravity[OF _ Inr] by blast
    have one: "players r = players rm
        \<and> (gravity (board rm) \<longrightarrow> gravity (board r))
        \<and> (\<forall>x y. 0 \<le> x \<and> 0 \<le> y \<and> sq (board rm) x y \<noteq> EMPTY
              \<longrightarrow> sq (board r) x y = sq (board rm) x y)"
      if "r = ?rm1 \<or> r = ?rm2" for r
      using that keep grav by auto
    from f have cases: "rm' = ?rm1 \<or> rm' = ?rm2
        \<or> (\<exists>p. rm' = fst (play ?rm2 p (tl rnd)))"
      unfolding play_unfold_fst[OF Inr]
      by (auto split: if_splits option.splits sum.splits num.splits)
    then show ?thesis
    proof (elim disjE exE)
      fix p assume r: "rm' = fst (play ?rm2 p (tl rnd))"
      have "empties (board ?rm2) < empties (board rm)"
        using dropSquare_empties[OF Inr] by simp
      from less.hyps[OF this, of p "tl rnd" rm' "snd (play ?rm2 p (tl rnd))"] r
      have ih: "players rm' = players ?rm2"
        "gravity (board ?rm2) \<longrightarrow> gravity (board rm')"
        "\<forall>x y. 0 \<le> x \<and> 0 \<le> y \<and> sq (board ?rm2) x y \<noteq> EMPTY
              \<longrightarrow> sq (board rm') x y = sq (board ?rm2) x y"
        by auto
      show ?thesis
      proof (intro conjI allI impI)
        show "players rm' = players rm" using ih(1) by simp
        show "gravity (board rm')" if "gravity (board rm)"
          using that grav ih(2) by simp
        fix x y assume a: "0 \<le> x \<and> 0 \<le> y \<and> sq (board rm) x y \<noteq> EMPTY"
        then have "sq b' x y = sq (board rm) x y" using keep by blast
        moreover from this a have "sq (board rm') x y = sq b' x y" using ih(3) by simp
        ultimately show "sq (board rm') x y = sq (board rm) x y" by simp
      qed
    qed (use one in blast)+
  qed
qed

lemma play_Resolved_free:
  "play rm pos rnd = (rm', Resolved) \<Longrightarrow> hasFreeSquare (board rm) pos = Inr True"
  by (subst (asm) play.simps) (auto split: if_splits sum.splits)

lemma wf_board_new: "wf_board Board_new"
  by code_simp

lemma gravity_new: "gravity Board_new"
  by code_simp

lemma wf_room_new: "wf_room (Room_new firstPlayer secondPlayer secondType rnd)"
proof -
  define cur where "cur = (if secondType = HUMAN then rnd mod 2 else 0)"
  have "cur = 0 \<or> cur = 1" unfolding cur_def by auto
  then show ?thesis
    unfolding Room_new_def Let_def cur_def[symmetric]
    by (auto simp: wf_room_def Player_new_def wf_board_new)
qed

lemma board_Room_new: "board (Room_new firstPlayer secondPlayer secondType rnd) = Board_new"
  by (simp add: Room_new_def Let_def)

lemma reachable_wf_gravity: "reachable rm \<Longrightarrow> wf_room rm \<and> gravity (board rm)"
proof (induction rule: reachable.induct)
  case (start firstPlayer secondPlayer secondType rnd)
  then show ?case by (simp add: wf_room_new gravity_new board_Room_new)
next
  case (step rm pos rnd rm')
  from play_resolved[OF conjunct1[OF step.IH] play_Resolved_free[OF step.hyps(2)], of rnd]
  have "wf_room rm'" using step.hyps(2) by auto
  moreover have "gravity (board rm')"
    using play_preserves[OF step.hyps(2)] step.IH by blast
  ultimately show ?case by simp
qed

text \<open>
  Claim C9. In a room that is not over and whose current player is a bot, the column the
  bot's policy selects (the best position of the search for the easy, normal and cheat
  bots, the first free column for the stupid bot, a random free column for the random
  bot) is one of the free columns of the board, and the chained call of \<^verbatim>\<open>play\<close> with it
  does not fail: its promise is resolved.
\<close>

theorem bot_position_is_free:
  assumes "wf_room rm" "\<not> isOver (board rm)" "ptype (currentPlayer rm) \<noteq> HUMAN"
  shows "\<exists>p\<in>set (getFree (board rm)).
           botPosition rm r = Some (Inr (Some (Num p)))
           \<and> (\<exists>rm'. play rm p rnd = (rm', Resolved))"
proof -
  from botPosition_cases[OF wf_room_sides(1,2)[OF assms(1)] assms(2), of r] assms(3)
  obtain p where p: "p \<in> set (getFree (board rm))"
    and b: "botPosition rm r = Some (Inr (Some (Num p)))"
    by auto
  from p have "hasFreeSquare (board rm) p = Inr True" by (simp add: getFree_iff)
  from play_resolved[OF assms(1) this, of rnd] p b show ?thesis by blast
qed

theorem bot_position_is_free_witness:
  "wf_room room_late \<and> \<not> isOver (board room_late) \<and> ptype (currentPlayer room_late) \<noteq> HUMAN
   \<and> botPosition room_late 0 = Some (Inr (Some (Num 2))) \<and> 2 \<in> set (getFree (board room_late))
   \<and> (\<exists>p\<in>set (getFree (board room_late)).
           botPosition room_late 0 = Some (Inr (Some (Num p)))
           \<and> (\<exists>rm'. play room_late p [] = (rm', Resolved)))"
proof -
  have w: "wf_room room_late" by code_simp
  have o: "\<not> isOver (board room_late)" by code_simp
  have t: "ptype (currentPlayer room_late) \<noteq> HUMAN" by code_simp
  have b: "botPosition room_late 0 = Some (Inr (Some (Num 2)))" by code_simp
  have f: "2 \<in> set (getFree (board room_late))" by code_simp
  show ?thesis using w o t b f bot_position_is_free[OF w o t, of 0 "[]"] by simp
qed

text \<open>
  Claim C1. In every room and for every integer column, \<^verbatim>\<open>play\<close> throws
  \<open>InvalidColumn\<close> when the column is outside \<open>[0, 7)\<close> and throws \<open>ColumnFull\<close> when
  the column has no empty square, and in both cases the room (board and turn index) is
  what it was before the call; otherwise it succeeds and the current player's mark is in
  the lowest empty square of that column, the empty square with the largest row index.
\<close>

theorem play_errors_and_drop:
  assumes "wf_room rm"
  shows "(pos < 0 \<or> pos \<ge> cols \<longrightarrow> play rm pos rnd = (rm, Thrown InvalidColumn))
     \<and> (0 \<le> pos \<and> pos < cols \<and> hasFreeSquare (board rm) pos = Inr False
          \<longrightarrow> play rm pos rnd = (rm, Thrown ColumnFull))
     \<and> (0 \<le> pos \<and> pos < cols \<and> hasFreeSquare (board rm) pos = Inr True
          \<longrightarrow> (\<exists>rm' y. play rm pos rnd = (rm', Resolved)
                 \<and> getFirstFreeSquarePos (board rm) pos = Inr y
                 \<and> sq (board rm) pos y = EMPTY
                 \<and> (\<forall>z. y < z \<and> z \<le> 5 \<longrightarrow> sq (board rm) pos z \<noteq> EMPTY)
                 \<and> sq (board rm') pos y = squareType (currentPlayer rm)))"
proof (intro conjI impI)
  assume "pos < 0 \<or> pos \<ge> cols"
  then show "play rm pos rnd = (rm, Thrown InvalidColumn)"
    by (subst play.simps) simp
next
  assume "0 \<le> pos \<and> pos < cols \<and> hasFreeSquare (board rm) pos = Inr False"
  then show "play rm pos rnd = (rm, Thrown ColumnFull)"
    by (subst play.simps) simp
next
  assume a: "0 \<le> pos \<and> pos < cols \<and> hasFreeSquare (board rm) pos = Inr True"
  then have h: "hasFreeSquare (board rm) pos = Inr True" by simp
  from play_resolved[OF assms h, of rnd]
  obtain rm' where r: "play rm pos rnd = (rm', Resolved)" by blast
  from assms have wb: "wf_board (board rm)" by (simp add: wf_room_def)
  from dropSquare_ok[OF wb wf_room_sides(1)[OF assms] h]
  obtain b' where d: "dropSquare (board rm) pos (squareType (currentPlayer rm)) = Inr b'"
    by blast
  from dropSquare_sq[OF d]
  obtain y where y: "getFirstFreeSquarePos (board rm) pos = Inr y"
    and t: "squareType (currentPlayer rm) \<noteq> EMPTY"
    and c: "\<And>x' y'. 0 \<le> x' \<Longrightarrow> 0 \<le> y' \<Longrightarrow>
        sq b' x' y' = (if x' = pos \<and> y' = y then squareType (currentPlayer rm)
                       else sq (board rm) x' y')"
    by blast
  from y have yr: "0 \<le> y" "sq (board rm) pos y = EMPTY"
    "\<forall>z. y < z \<and> z \<le> 5 \<longrightarrow> sq (board rm) pos z \<noteq> EMPTY"
    by (auto simp: getFirstFreeSquarePos_Inr_iff)
  have p0: "0 \<le> pos" using a by simp
  have b'c: "sq b' pos y = squareType (currentPlayer rm)" using c[OF p0 yr(1)] by simp
  have "sq (board rm') pos y = squareType (currentPlayer rm)"
  proof (cases "rm' = rm\<lparr>board := b'\<rparr> \<or> rm' = swapPlayer (rm\<lparr>board := b'\<rparr>)")
    case True
    then show ?thesis using b'c by auto
  next
    case False
    from r have "fst (play rm pos rnd) = rm'" by simp
    with False obtain p
      where "rm' = fst (play (swapPlayer (rm\<lparr>board := b'\<rparr>)) p (tl rnd))"
      unfolding play_unfold_fst[OF d]
      by (auto split: if_splits option.splits sum.splits num.splits)
    then have "play (swapPlayer (rm\<lparr>board := b'\<rparr>)) p (tl rnd)
        = (rm', snd (play (swapPlayer (rm\<lparr>board := b'\<rparr>)) p (tl rnd)))"
      by simp
    from play_preserves[OF this] p0 yr(1) b'c t show ?thesis by simp
  qed
  with r y yr show "\<exists>rm' y. play rm pos rnd = (rm', Resolved)
                 \<and> getFirstFreeSquarePos (board rm) pos = Inr y
                 \<and> sq (board rm) pos y = EMPTY
                 \<and> (\<forall>z. y < z \<and> z \<le> 5 \<longrightarrow> sq (board rm) pos z \<noteq> EMPTY)
                 \<and> sq (board rm') pos y = squareType (currentPlayer rm)"
    by blast
qed

theorem play_errors_and_drop_witness:
  "wf_room room_late
   \<and> play room_late 7 [] = (room_late, Thrown InvalidColumn)
   \<and> hasFreeSquare (board room_late) 0 = Inr False
   \<and> play room_late 0 [] = (room_late, Thrown ColumnFull)
   \<and> hasFreeSquare (board room_late) 1 = Inr True
   \<and> getFirstFreeSquarePos (board room_late) 1 = Inr 0
   \<and> (\<exists>rm'. play room_late 1 [] = (rm', Resolved) \<and> sq (board rm') 1 0 = RED)"
proof -
  have w: "wf_room room_late" by code_simp
  have f: "hasFreeSquare (board room_late) 0 = Inr False" by code_simp
  have t: "hasFreeSquare (board room_late) 1 = Inr True" by code_simp
  have y: "getFirstFreeSquarePos (board room_late) 1 = Inr 0" by code_simp
  have c: "squareType (currentPlayer room_late) = RED" by code_simp
  have 1: "play room_late 7 [] = (room_late, Thrown InvalidColumn)"
    using play_errors_and_drop[OF w, of 7 "[]"] by simp
  have 2: "play room_late 0 [] = (room_late, Thrown ColumnFull)"
    using play_errors_and_drop[OF w, of 0 "[]"] f by simp
  have "\<exists>rm' y. play room_late 1 [] = (rm', Resolved)
                 \<and> getFirstFreeSquarePos (board room_late) 1 = Inr y
                 \<and> sq (board room_late) 1 y = EMPTY
                 \<and> (\<forall>z. y < z \<and> z \<le> 5 \<longrightarrow> sq (board room_late) 1 z \<noteq> EMPTY)
                 \<and> sq (board rm') 1 y = squareType (currentPlayer room_late)"
    using play_errors_and_drop[OF w, of 1 "[]"] t by simp
  then have 3: "\<exists>rm'. play room_late 1 [] = (rm', Resolved) \<and> sq (board rm') 1 0 = RED"
    unfolding y c by blast
  show ?thesis using w f t y 1 2 3 by blast
qed

lemma hasLine_kept:
  assumes "hasLine b s"
    and "\<And>x y. 0 \<le> x \<Longrightarrow> 0 \<le> y \<Longrightarrow> sq b x y \<noteq> EMPTY \<Longrightarrow> sq b' x y = sq b x y"
  shows "hasLine b' s"
proof -
  from assms(1) obtain w where s: "s \<noteq> EMPTY" and w: "w \<in> set allWindows"
    and a: "\<forall>c\<in>set w. sq b (fst c) (snd c) = s"
    unfolding hasLine_iff by blast
  have "sq b' (fst c) (snd c) = s" if "c \<in> set w" for c
  proof -
    from allWindows_inBoard[OF w that] have "0 \<le> fst c" "0 \<le> snd c"
      by (simp_all add: inBoard_def)
    then show ?thesis using assms(2)[of "fst c" "snd c"] a that s by auto
  qed
  then show ?thesis using s w unfolding hasLine_iff by blast
qed

lemma isOver_iff: "isOver b \<longleftrightarrow> getFree b = [] \<or> (\<exists>s. hasLine b s)"
  using getSquareTypeWinner_None_iff[of b] by (auto simp: isOver_def)

lemma isOver_play:
  assumes "isOver (board rm)" "play rm pos rnd = (rm', out)"
  shows "isOver (board rm')"
proof (cases "getFree (board rm) = []")
  case True
  then have "hasFreeSquare (board rm) pos \<noteq> Inr True"
    using getFree_iff[of pos "board rm"] by auto
  then have "dropSquare (board rm) pos (squareType (currentPlayer rm)) \<noteq> Inr b'" for b'
    by (auto simp: dropSquare_Inr_iff getFirstFreeSquarePos_Inr_iff hasFreeSquare_iff)
  then obtain e where "dropSquare (board rm) pos (squareType (currentPlayer rm)) = Inl e"
    by (cases "dropSquare (board rm) pos (squareType (currentPlayer rm))") auto
  from play_failed_drop[OF this, of rnd] assms show ?thesis by simp
next
  case False
  with assms(1) obtain s where l: "hasLine (board rm) s" by (auto simp: isOver_iff)
  from play_preserves[OF assms(2)]
  have k: "\<And>x y. 0 \<le> x \<Longrightarrow> 0 \<le> y \<Longrightarrow> sq (board rm) x y \<noteq> EMPTY
      \<Longrightarrow> sq (board rm') x y = sq (board rm) x y"
    by blast
  have "hasLine (board rm') s" using l k by (rule hasLine_kept)
  then show ?thesis unfolding isOver_iff by blast
qed

lemma winner_after_drop:
  assumes "\<not> isOver b" "dropSquare b p t = Inr b'" "getSquareTypeWinner b' = Some s"
  shows "s = t"
proof (rule ccontr)
  assume ne: "s \<noteq> t"
  from dropSquare_sq[OF assms(2)]
  obtain y0 where c: "\<And>x y. 0 \<le> x \<Longrightarrow> 0 \<le> y \<Longrightarrow>
        sq b' x y = (if x = p \<and> y = y0 then t else sq b x y)"
    by blast
  have l: "hasLine b' s" using assms(3) by (rule getSquareTypeWinner_Some_hasLine)
  have "hasLine b s"
  proof -
    from l obtain w where s: "s \<noteq> EMPTY" and w: "w \<in> set allWindows"
      and a: "\<forall>c\<in>set w. sq b' (fst c) (snd c) = s"
      unfolding hasLine_iff by blast
    have "sq b (fst c) (snd c) = s" if "c \<in> set w" for c
    proof -
      from allWindows_inBoard[OF w that] have "0 \<le> fst c" "0 \<le> snd c"
        by (simp_all add: inBoard_def)
      from c[OF this] a that ne show ?thesis by (auto split: if_splits)
    qed
    then show ?thesis using s w unfolding hasLine_iff by blast
  qed
  then show False using assms(1) by (auto simp: isOver_iff)
qed

lemma swapPlayer_twice:
  "wf_room rm \<Longrightarrow> currentPlayer (swapPlayer (swapPlayer rm\<lparr>board := b\<rparr>)) = currentPlayer rm"
proof -
  assume "wf_room rm"
  then have "length (players rm) = 2" "currentPlayerIndex rm = 0 \<or> currentPlayerIndex rm = 1"
    by (auto simp: wf_room_def)
  then show ?thesis by (auto simp: swapPlayer_def currentPlayer_def)
qed

lemma currentPlayer_board [simp]: "currentPlayer (rm\<lparr>board := b\<rparr>) = currentPlayer rm"
  by (simp add: currentPlayer_def)

lemma botPosition_board_human:
  "ptype (currentPlayer rm) = HUMAN \<Longrightarrow> botPosition rm r = None"
  by (simp add: botPosition_def)

text \<open>
  The four ways a call of \<^verbatim>\<open>play\<close> by a human can go once its drop succeeds: the drop
  ends the game; the opponent is a human; the opponent is a bot whose drop ends the game;
  or the bot's drop does not and the turn is the human's again.
\<close>

lemma play_human_cases:
  assumes w: "wf_room rm" and h: "ptype (currentPlayer rm) = HUMAN"
    and d: "dropSquare (board rm) pos (squareType (currentPlayer rm)) = Inr b1"
  obtains
    (over) "isOver b1" "play rm pos rnd = (rm\<lparr>board := b1\<rparr>, Resolved)"
  | (human) "\<not> isOver b1" "ptype (currentPlayer (swapPlayer (rm\<lparr>board := b1\<rparr>))) = HUMAN"
      "play rm pos rnd = (swapPlayer (rm\<lparr>board := b1\<rparr>), Resolved)"
  | (bot_over) p b2 where "\<not> isOver b1"
      "dropSquare b1 p (squareType (currentPlayer (swapPlayer (rm\<lparr>board := b1\<rparr>)))) = Inr b2"
      "isOver b2"
      "play rm pos rnd = ((swapPlayer (rm\<lparr>board := b1\<rparr>))\<lparr>board := b2\<rparr>, Resolved)"
  | (bot_on) p b2 where "\<not> isOver b1"
      "dropSquare b1 p (squareType (currentPlayer (swapPlayer (rm\<lparr>board := b1\<rparr>)))) = Inr b2"
      "\<not> isOver b2"
      "ptype (currentPlayer (swapPlayer ((swapPlayer (rm\<lparr>board := b1\<rparr>))\<lparr>board := b2\<rparr>)))
         = HUMAN"
      "play rm pos rnd
         = (swapPlayer ((swapPlayer (rm\<lparr>board := b1\<rparr>))\<lparr>board := b2\<rparr>), Resolved)"
proof (cases "isOver b1")
  case True
  then have "play rm pos rnd = (rm\<lparr>board := b1\<rparr>, Resolved)"
    by (simp add: play_unfold[OF d])
  with True show ?thesis by (rule over)
next
  case False
  let ?rm2 = "swapPlayer (rm\<lparr>board := b1\<rparr>)"
  from w have wb: "wf_board (board rm)" by (simp add: wf_room_def)
  have w2: "wf_room ?rm2"
    using wf_room_board[OF w dropSquare_wf_board[OF wb d]] by (rule wf_room_swapPlayer)
  have o2: "\<not> isOver (board ?rm2)" using False by simp
  from botPosition_cases[OF wf_room_sides(1,2)[OF w2] o2,
        where r = "case rnd of [] \<Rightarrow> 0 | r # _ \<Rightarrow> r"]
  show ?thesis
  proof (elim disjE conjE bexE)
    assume hh: "ptype (currentPlayer ?rm2) = HUMAN"
      and "botPosition ?rm2 (case rnd of [] \<Rightarrow> 0 | r # _ \<Rightarrow> r) = None"
    then have "play rm pos rnd = (?rm2, Resolved)"
      using False by (simp add: play_unfold[OF d])
    with False hh show ?thesis by (rule human)
  next
    fix p
    assume p: "p \<in> set (getFree (board ?rm2))"
      and bp: "botPosition ?rm2 (case rnd of [] \<Rightarrow> 0 | r # _ \<Rightarrow> r) = Some (Inr (Some (Num p)))"
    have pl: "play rm pos rnd = chained (play ?rm2 p (tl rnd))"
      using False bp by (simp add: play_unfold[OF d])
    from p have hf: "hasFreeSquare (board ?rm2) p = Inr True" by (simp add: getFree_iff)
    from w2 have wb2: "wf_board (board ?rm2)" by (simp add: wf_room_def)
    from dropSquare_ok[OF wb2 wf_room_sides(1)[OF w2] hf]
    obtain b2 where d2: "dropSquare (board ?rm2) p (squareType (currentPlayer ?rm2)) = Inr b2"
      by blast
    then have d2': "dropSquare b1 p (squareType (currentPlayer ?rm2)) = Inr b2" by simp
    show ?thesis
    proof (cases "isOver b2")
      case True
      then have "play ?rm2 p (tl rnd) = (?rm2\<lparr>board := b2\<rparr>, Resolved)"
        by (simp add: play_unfold[OF d2])
      then have "play rm pos rnd = (?rm2\<lparr>board := b2\<rparr>, Resolved)"
        unfolding pl by simp
      with False d2' True show ?thesis by (rule bot_over)
    next
      case o: False
      let ?rm3 = "swapPlayer (?rm2\<lparr>board := b2\<rparr>)"
      have "currentPlayer ?rm3 = currentPlayer rm"
        using swapPlayer_twice[OF wf_room_board[OF w dropSquare_wf_board[OF wb d]], of b2]
        by simp
      then have h3: "ptype (currentPlayer ?rm3) = HUMAN" using h by simp
      then have "botPosition ?rm3 r = None" for r by (rule botPosition_board_human)
      then have "play ?rm2 p (tl rnd) = (?rm3, Resolved)"
        using o by (simp add: play_unfold[OF d2])
      then have "play rm pos rnd = (?rm3, Resolved)"
        unfolding pl by simp
      with False d2' o h3 show ?thesis by (rule bot_on)
    qed
  qed
qed

lemma Room_new_human: "ptype (currentPlayer (Room_new firstPlayer secondPlayer secondType rnd)) = HUMAN"
proof -
  define cur where "cur = (if secondType = HUMAN then rnd mod 2 else 0)"
  have "secondType = HUMAN \<and> (cur = 0 \<or> cur = 1) \<or> secondType \<noteq> HUMAN \<and> cur = 0"
    unfolding cur_def by auto
  then show ?thesis
    unfolding Room_new_def Let_def cur_def[symmetric]
    by (auto simp: currentPlayer_def Player_new_def)
qed

lemma play_Resolved_drop:
  assumes "wf_room rm" "play rm pos rnd = (rm', out)" "rm' \<noteq> rm"
  shows "\<exists>b1. dropSquare (board rm) pos (squareType (currentPlayer rm)) = Inr b1"
proof (cases "dropSquare (board rm) pos (squareType (currentPlayer rm))")
  case (Inl e)
  from play_failed_drop[OF this, of rnd] assms show ?thesis by simp
next
  case (Inr b1)
  then show ?thesis by blast
qed

lemma reachable_human:
  "reachable rm \<Longrightarrow> \<not> isOver (board rm) \<Longrightarrow> ptype (currentPlayer rm) = HUMAN"
proof (induction rule: reachable.induct)
  case (start firstPlayer secondPlayer secondType rnd)
  show ?case by (rule Room_new_human)
next
  case (step rm pos rnd rm')
  have no: "\<not> isOver (board rm)" using isOver_play[OF _ step.hyps(2)] step.prems by blast
  then have h: "ptype (currentPlayer rm) = HUMAN" by (rule step.IH)
  have w: "wf_room rm" using reachable_wf_gravity[OF step.hyps(1)] by simp
  then have wb: "wf_board (board rm)" by (simp add: wf_room_def)
  from dropSquare_ok[OF wb wf_room_sides(1)[OF w] play_Resolved_free[OF step.hyps(2)]]
  obtain b1 where d: "dropSquare (board rm) pos (squareType (currentPlayer rm)) = Inr b1"
    by blast
  from w h d show ?case
  proof (cases rule: play_human_cases[where rnd = rnd])
    case over
    then show ?thesis using step.hyps(2) step.prems by simp
  next
    case human
    then show ?thesis using step.hyps(2) by simp
  next
    case (bot_over p b2)
    then show ?thesis using step.hyps(2) step.prems by simp
  next
    case (bot_on p b2)
    then show ?thesis using step.hyps(2) by simp
  qed
qed

lemma getWinner_current:
  assumes "wf_room r" "getSquareTypeWinner (board r) = Some (squareType (currentPlayer r))"
  shows "getWinner r = Inr (Some (currentPlayer r))"
proof -
  define t where "t = squareType (currentPlayer r)"
  have g: "getSquareTypeWinner (board r) = Some t" unfolding t_def by (rule assms(2))
  have o: "isOver (board r)" unfolding isOver_def g by simp
  have e: "getWinner r = Inr (Some (if squareType (players r ! 0) = t
                                      then players r ! 0 else players r ! 1))"
    unfolding getWinner_def g using o by simp
  from assms(1) have i: "currentPlayerIndex r = 0 \<or> currentPlayerIndex r = 1"
    and n: "squareType (players r ! 0) \<noteq> squareType (players r ! 1)"
    by (auto simp: wf_room_def)
  from i show ?thesis
  proof
    assume "currentPlayerIndex r = 0"
    then have c: "currentPlayer r = players r ! 0" by (simp add: currentPlayer_def)
    show ?thesis unfolding e t_def c by simp
  next
    assume "currentPlayerIndex r = 1"
    then have c: "currentPlayer r = players r ! 1" by (simp add: currentPlayer_def)
    show ?thesis unfolding e t_def c using n by simp
  qed
qed

text \<open>
  Claim C4. In every room reachable from the constructor by accepted calls of \<^verbatim>\<open>play\<close>,
  the occupied squares of each column are a run from the bottom row up (below an
  occupied square every square is occupied), and a call of \<^verbatim>\<open>play\<close> leaves every occupied
  square as it is: it is neither emptied nor given to the other side.
\<close>

theorem reachable_gravity_marks_kept:
  assumes "reachable rm"
  shows "gravity (board rm)
     \<and> (\<forall>pos rnd rm' out x y.
          play rm pos rnd = (rm', out) \<and> 0 \<le> x \<and> x < cols \<and> 0 \<le> y \<and> y < rows
            \<and> sq (board rm) x y \<noteq> EMPTY
          \<longrightarrow> sq (board rm') x y = sq (board rm) x y)"
proof -
  have "sq (board rm') x y = sq (board rm) x y"
    if "play rm pos rnd = (rm', out)" "0 \<le> x" "0 \<le> y" "sq (board rm) x y \<noteq> EMPTY"
    for pos rnd rm' out x y
    using play_preserves[OF that(1)] that(2-4) by blast
  then show ?thesis using reachable_wf_gravity[OF assms] by blast
qed

theorem reachable_gravity_marks_kept_witness:
  "reachable (room_stupid 1 1) \<and> gravity (board (room_stupid 1 1))
   \<and> play (room_stupid 1 1) 1 [] = (room_stupid 2 2, Resolved)
   \<and> sq (board (room_stupid 1 1)) 1 5 = BLUE
   \<and> sq (board (room_stupid 2 2)) 1 5 = sq (board (room_stupid 1 1)) 1 5"
proof -
  have s: "Room_new 1 None STUPID_BOT 0 = room_stupid 0 0" by code_simp
  have p0: "play (room_stupid 0 0) 1 [] = (room_stupid 1 1, Resolved)" by code_simp
  have p1: "play (room_stupid 1 1) 1 [] = (room_stupid 2 2, Resolved)" by code_simp
  have c: "sq (board (room_stupid 1 1)) 1 5 = BLUE" by code_simp
  have "reachable (room_stupid 0 0)" using reachable.start[of 1 None STUPID_BOT 0] s by simp
  then have r: "reachable (room_stupid 1 1)" using p0 by (rule reachable.step)
  show ?thesis
    using r p1 c reachable_gravity_marks_kept[OF r] by (auto simp del: sq_def)
qed

text \<open>
  Claim C10. In a reachable room whose game is not over, when a call of \<^verbatim>\<open>play\<close> leaves
  the game over, the call resolves and the final mark was dropped by a player \<open>rm0\<close>,
  either the caller or the bot answering it, whose room differs from the final one in
  the board only: the turn index was not swapped after that drop, so the current player
  of the final room is the player who made the final move. When the final board has a
  line of four, \<^verbatim>\<open>getWinner\<close> returns that same player.
\<close>

theorem final_move_keeps_turn:
  assumes "reachable rm" "\<not> isOver (board rm)"
    and "play rm pos rnd = (rm', out)" "isOver (board rm')"
  shows "out = Resolved
     \<and> (\<exists>rm0 p. (rm0 = rm \<and> p = pos
                 \<or> (\<exists>b1. dropSquare (board rm) pos (squareType (currentPlayer rm)) = Inr b1
                        \<and> \<not> isOver b1 \<and> rm0 = swapPlayer (rm\<lparr>board := b1\<rparr>)))
          \<and> dropSquare (board rm0) p (squareType (currentPlayer rm0)) = Inr (board rm')
          \<and> rm' = rm0\<lparr>board := board rm'\<rparr>
          \<and> currentPlayer rm' = currentPlayer rm0
          \<and> (\<forall>s. getSquareTypeWinner (board rm') = Some s
                \<longrightarrow> getWinner rm' = Inr (Some (currentPlayer rm0))))"
proof -
  have w: "wf_room rm" using reachable_wf_gravity[OF assms(1)] by simp
  have h: "ptype (currentPlayer rm) = HUMAN" using assms(1,2) by (rule reachable_human)
  have "rm' \<noteq> rm" using assms(2,4) by auto
  from play_Resolved_drop[OF w assms(3) this]
  obtain b1 where d: "dropSquare (board rm) pos (squareType (currentPlayer rm)) = Inr b1"
    by blast
  from w h d show ?thesis
  proof (cases rule: play_human_cases[where rnd = rnd])
    case over
    then have e: "rm' = rm\<lparr>board := b1\<rparr>" "out = Resolved" using assms(3) by simp_all
    have wr: "wf_room rm'" unfolding e using w wf_board_copy dropSquare_wf_board[OF _ d]
      by (simp add: wf_room_def)
    have g: "getWinner rm' = Inr (Some (currentPlayer rm))"
      if "getSquareTypeWinner (board rm') = Some s" for s
    proof -
      have "s = squareType (currentPlayer rm)"
        using winner_after_drop[OF assms(2) d] that e by simp
      then show ?thesis using getWinner_current[OF wr] that e by simp
    qed
    have "dropSquare (board rm) pos (squareType (currentPlayer rm)) = Inr (board rm')
          \<and> rm' = rm\<lparr>board := board rm'\<rparr> \<and> currentPlayer rm' = currentPlayer rm"
      using d e by simp
    with g e(2) show ?thesis by blast
  next
    case human
    then show ?thesis using assms(3,4) by simp
  next
    case (bot_over p b2)
    define rm0 where "rm0 = swapPlayer (rm\<lparr>board := b1\<rparr>)"
    have e: "rm' = rm0\<lparr>board := b2\<rparr>" "out = Resolved"
      using bot_over(4) assms(3) unfolding rm0_def by simp_all
    have b0: "board rm0 = b1" unfolding rm0_def by simp
    have d0: "dropSquare (board rm0) p (squareType (currentPlayer rm0)) = Inr b2"
      using bot_over(2) unfolding rm0_def by simp
    have w1: "wf_room (rm\<lparr>board := b1\<rparr>)"
      using w dropSquare_wf_board[OF _ d] by (simp add: wf_room_def)
    have w0: "wf_room rm0" unfolding rm0_def using w1 by (rule wf_room_swapPlayer)
    have wr: "wf_room rm'" unfolding e using w0 dropSquare_wf_board[OF _ d0]
      by (simp add: wf_room_def)
    have n0: "\<not> isOver (board rm0)" using bot_over(1) b0 by simp
    have g: "getWinner rm' = Inr (Some (currentPlayer rm0))"
      if "getSquareTypeWinner (board rm') = Some s" for s
    proof -
      have "s = squareType (currentPlayer rm0)"
        using winner_after_drop[OF n0 d0] that e by simp
      then show ?thesis using getWinner_current[OF wr] that e by simp
    qed
    have "dropSquare (board rm0) p (squareType (currentPlayer rm0)) = Inr (board rm')
          \<and> rm' = rm0\<lparr>board := board rm'\<rparr> \<and> currentPlayer rm' = currentPlayer rm0"
      using d0 e by simp
    moreover have "\<exists>b1. dropSquare (board rm) pos (squareType (currentPlayer rm)) = Inr b1
                        \<and> \<not> isOver b1 \<and> rm0 = swapPlayer (rm\<lparr>board := b1\<rparr>)"
      using d bot_over(1) rm0_def by blast
    ultimately show ?thesis using g e(2) by blast
  next
    case (bot_on p b2)
    then show ?thesis using assms(3,4) by simp
  qed
qed

theorem final_move_keeps_turn_witness:
  "reachable (room_stupid 3 3) \<and> \<not> isOver (board (room_stupid 3 3))
   \<and> play (room_stupid 3 3) 1 [] = (room_stupid 3 4, Resolved)
   \<and> isOver (board (room_stupid 3 4))
   \<and> dropSquare (board (room_stupid 3 3)) 1 BLUE = Inr (board (room_stupid 3 4))
   \<and> currentPlayer (room_stupid 3 4) = currentPlayer (room_stupid 3 3)
   \<and> getSquareTypeWinner (board (room_stupid 3 4)) = Some BLUE
   \<and> getWinner (room_stupid 3 4) = Inr (Some (currentPlayer (room_stupid 3 3)))"
proof -
  have s: "Room_new 1 None STUPID_BOT 0 = room_stupid 0 0" by code_simp
  have p0: "play (room_stupid 0 0) 1 [] = (room_stupid 1 1, Resolved)" by code_simp
  have p1: "play (room_stupid 1 1) 1 [] = (room_stupid 2 2, Resolved)" by code_simp
  have p2: "play (room_stupid 2 2) 1 [] = (room_stupid 3 3, Resolved)" by code_simp
  have p3: "play (room_stupid 3 3) 1 [] = (room_stupid 3 4, Resolved)" by code_simp
  have n: "\<not> isOver (board (room_stupid 3 3))" by code_simp
  have o: "isOver (board (room_stupid 3 4))" by code_simp
  have g: "getSquareTypeWinner (board (room_stupid 3 4)) = Some BLUE" by code_simp
  have d: "dropSquare (board (room_stupid 3 3)) 1 BLUE = Inr (board (room_stupid 3 4))"
    by code_simp
  have c: "currentPlayer (room_stupid 3 4) = currentPlayer (room_stupid 3 3)" by code_simp
  have "reachable (room_stupid 0 0)" using reachable.start[of 1 None STUPID_BOT 0] s by simp
  then have "reachable (room_stupid 1 1)" using p0 by (rule reachable.step)
  then have "reachable (room_stupid 2 2)" using p1 by (rule reachable.step)
  then have r: "reachable (room_stupid 3 3)" using p2 by (rule reachable.step)
  from final_move_keeps_turn[OF r n p3 o] g
  have "getWinner (room_stupid 3 4) = Inr (Some (currentPlayer (room_stupid 3 3)))"
    by (metis c)
  with r n p3 o d c g show ?thesis by blast
qed

end
